theory Spec2Isabelle
  imports Complex_Main "HOL-Library.AList" "HOL-Library.Sublist"
begin

section \<open>JSON function expressions of django.db.models.functions.json\<close>

text \<open>
  The three builders \<open>JSONObject\<close>, \<open>JSONSet\<close> and \<open>JSONRemove\<close> are expression nodes that
  compile themselves to SQL text and a parameter list. Compilation is modelled as a family of
  total functions returning \<open>error + sql\<close>: every \<open>raise\<close> of the source is an \<open>Inl\<close> branch.
\<close>

subsection \<open>Data model\<close>

text \<open>The exceptions the modelled code can raise.\<close>

datatype error =
    NotSupportedError | TypeError | ValueError | AttributeError | IndexError | FieldError

text \<open>The output type of an expression (its \<open>output_field\<close>).\<close>

datatype field = JSONField | TextField | CharField | IntegerField | BooleanField

text \<open>Plain Python values: \<open>None\<close>, booleans, integers, strings and lists of strings.\<close>

datatype pyval = PNone | PBool bool | PInt int | PStr string | PList "string list"

text \<open>
  The objects that occur as source expressions and as update values.
  \<open>Lit v\<close> is a plain Python value that is not an expression (it has neither
  \<open>resolve_expression\<close> nor \<open>as_sql\<close>); \<open>F name\<close> is the reference \<open>F(name)\<close> to a field by
  its name, an expression that has to be resolved before it can be compiled; \<open>Col\<close> is a
  resolved column reference with its output field; \<open>Value v outf\<close> is \<open>Value(v, output_field=outf)\<close>; \<open>Cast\<close> and \<open>ToJSONB\<close> are
  the one-argument functions the source wraps values in. The three builders carry their
  \<open>source_expressions\<close> list; \<open>JSONSet\<close> also carries its explicit \<open>output_field\<close> argument and
  its \<open>fields\<close> dict (an association list in insertion order), \<open>JSONRemove\<close> its \<open>paths\<close> tuple.
  Keyword arguments other than the ones named here (\<open>**extra\<close>, \<open>**extra_context\<close>) are taken
  to be empty.
\<close>

datatype expr =
    Lit pyval
  | F string
  | Col string field
  | Value expr "field option"
  | Cast expr field
  | ToJSONB expr "field option"
  | JSONObject "expr list"
  | JSONSet "expr list" "field option" "(string \<times> expr) list"
  | JSONRemove "expr list" "string list"

text \<open>The connection: its vendor name and the capability flags the source reads.\<close>

datatype vendor = SQLite | MySQL | PostgreSQL | Oracle

record features =
  has_json_object_function :: bool
  supports_partial_json_update :: bool
  is_postgresql_16 :: bool

record connection =
  vendor :: vendor
  features :: features

text \<open>
  A compiled expression is SQL text with \<open>%s\<close> placeholders and the list of parameters bound
  to them; a parameter is the Python object together with the output field that prepares it.
\<close>

datatype param = Param expr "field option"

type_synonym sql = "string \<times> param list"

text \<open>
  A template such as \<open>%(function)s(%(expressions)s)\<close> is a list of parts; an \<open>arg_joiner\<close> is
  either a string or an object with a \<open>join\<close> method.
\<close>

datatype tpart = TFunction | TExpressions | TText string

datatype joiner = JStr string | JObj expr

subsection \<open>Strings, paths and dicts\<close>

text \<open>
  Modelled from the spec: \<open>LOOKUP_SEP\<close> of django.db.models.constants is not among the
  sources; the key paths of the spec are written "a__b__c".
\<close>

definition LOOKUP_SEP :: string where
  "LOOKUP_SEP = ''__''"

text \<open>\<open>s.split(sep)\<close>: the pieces between the non-overlapping occurrences of \<open>sep\<close>, left to right.\<close>

fun split_from :: "string \<Rightarrow> string \<Rightarrow> string \<Rightarrow> string list" where
  "split_from sep acc [] = [rev acc]"
| "split_from sep acc (ch # s) =
     (if sep \<noteq> [] \<and> take (length sep) (ch # s) = sep
      then rev acc # split_from sep [] (drop (length sep - 1) s)
      else split_from sep (ch # acc) s)"

definition split :: "string \<Rightarrow> string \<Rightarrow> string list" where
  "split s sep = split_from sep [] s"

text \<open>\<open>sep.join(parts)\<close>.\<close>

fun str_join :: "string \<Rightarrow> string list \<Rightarrow> string" where
  "str_join sep [] = []"
| "str_join sep [x] = x"
| "str_join sep (x # y # ys) = x @ sep @ str_join sep (y # ys)"

text \<open>
  Modelled from the spec: \<open>compile_json_path\<close> of django.db.models.fields.json is not among the
  sources. It "produces a \<open>$\<close>-rooted dot/bracket path": an all-digit segment becomes a bracket
  index, any other segment a dot followed by the quoted segment. The escaping of characters
  inside a segment is left out.
\<close>

definition is_index :: "string \<Rightarrow> bool" where
  "is_index s = (s \<noteq> [] \<and> list_all (\<lambda>ch. ch \<in> set ''0123456789'') s)"

definition compile_json_path :: "string list \<Rightarrow> string" where
  "compile_json_path key_transforms =
     ''$'' @ concat (map (\<lambda>k. if is_index k then ''['' @ k @ '']''
                               else ''.'' @ [CHR 0x22] @ k @ [CHR 0x22]) key_transforms)"

text \<open>
  \<open>dict(items)\<close>: a later item with a key already present replaces the value in place, a new
  key is appended. The items of a dict have distinct keys, and then \<open>dict\<close> returns them as
  they are.
\<close>

definition dict :: "(string \<times> 'v) list \<Rightarrow> (string \<times> 'v) list" where
  "dict items = foldl (\<lambda>d (k, v). AList.update k v d) [] items"

text \<open>The slices \<open>args[::2]\<close> (and \<open>args[1::2]\<close> as \<open>every_other (drop 1 args)\<close>).\<close>

fun every_other :: "'a list \<Rightarrow> 'a list" where
  "every_other (x # y # xs) = x # every_other xs"
| "every_other [x] = [x]"
| "every_other [] = []"

text \<open>\<open>zip(xs, ys, strict=True)\<close>, consumed to the end: lists of different lengths raise.\<close>

definition zip_strict :: "'a list \<Rightarrow> 'b list \<Rightarrow> error + ('a \<times> 'b) list" where
  "zip_strict xs ys = (if length xs = length ys then Inr (zip xs ys) else Inl ValueError)"

text \<open>The delimiter character U+FFFF of the Oracle quoted path literal, in UTF-8.\<close>

definition uffff :: string where
  "uffff = [CHR 0xEF, CHR 0xBF, CHR 0xBF]"

subsection \<open>The base classes\<close>

text \<open>
  Modelled from the spec: the classes \<open>Func\<close>, \<open>Value\<close>, \<open>Cast\<close> and the SQL compiler of
  django.db.models are not among the sources. The spec describes them as "a compiler object
  offering compile child expression to (sql_text, params)", "a value-wrapping primitive for
  literal constants with an associated declared output type", "a type-cast primitive" and
  nodes with "an ordered sequence of child expressions and an output type tag".

  \<open>output_field\<close> is the output type of a node: the declared one, or else the one of the first
  source expression; an undeclared \<open>Value\<close> takes the type of its Python value and has none for
  \<open>None\<close>. A plain value and an unresolved \<open>F\<close> have no attribute \<open>output_field\<close>.
\<close>

fun output_field :: "expr \<Rightarrow> error + field" where
  "output_field (Lit v) = Inl AttributeError"
| "output_field (F name) = Inl AttributeError"
| "output_field (Col name f) = Inr f"
| "output_field (Value v (Some f)) = Inr f"
| "output_field (Value v None) =
     (case v of Lit (PStr s) \<Rightarrow> Inr CharField
              | Lit (PBool b) \<Rightarrow> Inr BooleanField
              | Lit (PInt i) \<Rightarrow> Inr IntegerField
              | _ \<Rightarrow> Inl FieldError)"
| "output_field (Cast e f) = Inr f"
| "output_field (ToJSONB e (Some f)) = Inr f"
| "output_field (ToJSONB e None) = output_field e"
| "output_field (JSONObject srcs) = Inr JSONField"
| "output_field (JSONSet srcs (Some f) flds) = Inr f"
| "output_field (JSONSet srcs None flds) =
     (case srcs of [] \<Rightarrow> Inl FieldError | s # _ \<Rightarrow> output_field s)"
| "output_field (JSONRemove srcs paths) =
     (case srcs of [] \<Rightarrow> Inl FieldError | s # _ \<Rightarrow> output_field s)"

text \<open>\<open>isinstance(value, Value)\<close> and \<open>hasattr(value, "resolve_expression")\<close>.\<close>

fun is_Value :: "expr \<Rightarrow> bool" where
  "is_Value (Value v f) = True"
| "is_Value e = False"

fun has_resolve_expression :: "expr \<Rightarrow> bool" where
  "has_resolve_expression (Lit v) = False"
| "has_resolve_expression e = True"

text \<open>
  The classes that define \<open>as_postgresql\<close> and \<open>as_oracle\<close>, which the compiler prefers over
  \<open>as_sql\<close> on a connection of that vendor.
\<close>

fun has_vendor_impl :: "expr \<Rightarrow> bool" where
  "has_vendor_impl (JSONObject srcs) = True"
| "has_vendor_impl (JSONSet srcs f flds) = True"
| "has_vendor_impl (JSONRemove srcs paths) = True"
| "has_vendor_impl e = False"

text \<open>\<open>get_source_expressions\<close> returns the list of children.\<close>

fun get_source_expressions :: "expr \<Rightarrow> expr list" where
  "get_source_expressions (JSONObject srcs) = srcs"
| "get_source_expressions (JSONSet srcs f flds) = srcs"
| "get_source_expressions (JSONRemove srcs paths) = srcs"
| "get_source_expressions (Cast e f) = [e]"
| "get_source_expressions (ToJSONB e f) = [e]"
| "get_source_expressions e = []"

text \<open>The default template \<open>%(function)s(%(expressions)s)\<close> and \<open>template % data\<close>.\<close>

definition default_template :: "tpart list" where
  "default_template = [TFunction, TText ''('', TExpressions, TText '')'']"

definition render :: "tpart list \<Rightarrow> string option \<Rightarrow> string \<Rightarrow> string" where
  "render template function expressions =
     concat (map (\<lambda>p. case p of
                     TFunction \<Rightarrow> (case function of None \<Rightarrow> ''None'' | Some f \<Rightarrow> f)
                   | TExpressions \<Rightarrow> expressions
                   | TText t \<Rightarrow> t) template)"

definition db_type :: "field \<Rightarrow> string" where
  "db_type f = (case f of JSONField \<Rightarrow> ''json'' | TextField \<Rightarrow> ''text''
                | CharField \<Rightarrow> ''varchar'' | IntegerField \<Rightarrow> ''integer''
                | BooleanField \<Rightarrow> ''boolean'')"

subsection \<open>Constructors\<close>

text \<open>
  Modelled from the spec: \<open>Func.__init__\<close>, which the three constructors call through
  \<open>super().__init__\<close>, is not among the sources. It stores its positional arguments as the
  source expressions, each one parsed: an argument that is an expression (that has
  \<open>resolve_expression\<close>) is kept as it is, a string becomes the field reference \<open>F(name)\<close> and
  any other plain value the literal holder \<open>Value(value)\<close>.
\<close>

fun parse_expression :: "expr \<Rightarrow> expr" where
  "parse_expression (Lit (PStr name)) = F name"
| "parse_expression (Lit v) = Value (Lit v) None"
| "parse_expression e = e"

text \<open>
  \<open>JSONObject.__init__(**fields)\<close> flattens the pairs into alternating key and value
  children, the key as a \<open>Value\<close>, and passes them to \<open>Func.__init__\<close>. \<open>JSONSet.__init__\<close> and
  \<open>JSONRemove.__init__\<close> refuse an empty mapping and an empty path tuple, keep the mapping
  and the paths as they are given and pass the target expression to \<open>Func.__init__\<close>.
\<close>

definition JSONObject_init :: "(string \<times> expr) list \<Rightarrow> expr" where
  "JSONObject_init kwargs =
     JSONObject (map parse_expression
       (concat (map (\<lambda>(key, value). [Value (Lit (PStr key)) None, value]) kwargs)))"

definition JSONSet_init :: "expr \<Rightarrow> field option \<Rightarrow> (string \<times> expr) list \<Rightarrow> error + expr" where
  "JSONSet_init expression outf kwargs =
     (if kwargs = [] then Inl TypeError
      else Inr (JSONSet [parse_expression expression] outf kwargs))"

definition JSONRemove_init :: "expr \<Rightarrow> string list \<Rightarrow> error + expr" where
  "JSONRemove_init expression paths =
     (if paths = [] then Inl TypeError
      else Inr (JSONRemove [parse_expression expression] paths))"

subsection \<open>The join methods\<close>

text \<open>
  \<open>JSONObject.join\<close> pairs keys and values strictly; \<open>JSONSet.join\<close> and \<open>JSONRemove.join\<close>
  render the first pair or path of the node into the Oracle \<open>JSON_TRANSFORM\<close> argument.
\<close>

fun join :: "expr \<Rightarrow> string list \<Rightarrow> error + string" where
  "join (JSONObject srcs) args =
     (case zip_strict (every_other args) (every_other (drop 1 args)) of
        Inl e \<Rightarrow> Inl e
      | Inr pairs \<Rightarrow>
          Inr (str_join '', '' (map (\<lambda>(key, value). ''('' @ key @ '') VALUE '' @ value) pairs)))"
| "join (JSONSet srcs f []) args = Inl IndexError"
| "join (JSONSet srcs f ((key, value) # items)) args =
     (if args = [] then Inl IndexError
      else let key_paths_join = compile_json_path (split key LOOKUP_SEP);
               template = hd args @ '', SET q'' @ [CHR 0x27] @ uffff @ key_paths_join @ uffff
                          @ [CHR 0x27] @ '' = '' @ last args
           in if is_Value value then Inr (template @ '' FORMAT JSON'') else Inr template)"
| "join (JSONRemove srcs []) args = Inl IndexError"
| "join (JSONRemove srcs (path # paths)) args =
     (if args = [] then Inl IndexError
      else Inr (hd args @ '', REMOVE q'' @ [CHR 0x27] @ uffff
                @ compile_json_path (split path LOOKUP_SEP) @ uffff @ [CHR 0x27]))"
| "join e args = Inl AttributeError"

text \<open>\<open>arg_joiner.join(sql_parts)\<close> in \<open>Func.as_sql\<close>.\<close>

fun arg_joiner_join :: "joiner \<Rightarrow> string list \<Rightarrow> error + string" where
  "arg_joiner_join (JStr sep) sql_parts = Inr (str_join sep sql_parts)"
| "arg_joiner_join (JObj node) sql_parts = join node sql_parts"

subsection \<open>Value coercion\<close>

text \<open>
  \<open>JSONObject.as_postgresql\<close> casts every child at an even index to text.
\<close>

definition cast_keys :: "expr list \<Rightarrow> expr list" where
  "cast_keys source_expressions =
     map (\<lambda>(index, expression). if index mod 2 = 0 then Cast expression TextField else expression)
         (List.enumerate 0 source_expressions)"

text \<open>
  The loop of \<open>JSONSet.as_sql\<close>: for every pair the compiled path as a \<open>Value\<close>, then the value,
  cast to the node's output field when it is a \<open>Value\<close>.
\<close>

fun set_items :: "expr \<Rightarrow> (string \<times> expr) list \<Rightarrow> error + expr list" where
  "set_items self [] = Inr []"
| "set_items self ((key, value) # items) =
     (case (if is_Value value
            then (case output_field self of Inl e \<Rightarrow> Inl e | Inr f \<Rightarrow> Inr (Cast value f))
            else Inr value) of
        Inl e \<Rightarrow> Inl e
      | Inr value' \<Rightarrow>
          (case set_items self items of
             Inl e \<Rightarrow> Inl e
           | Inr tail \<Rightarrow>
               Inr (Value (Lit (PStr (compile_json_path (split key LOOKUP_SEP)))) None
                    # value' # tail)))"

text \<open>
  The value of the base case of \<open>JSONSet.as_postgresql\<close>: an expression whose output field is
  not a \<open>JSONField\<close> is wrapped in \<open>ToJSONB\<close>; otherwise a \<open>Value\<close> holding \<open>None\<close> is replaced by
  \<open>Value(None, output_field=self.output_field)\<close>.
\<close>

definition pg_value :: "expr \<Rightarrow> expr \<Rightarrow> error + expr" where
  "pg_value self value =
     (if has_resolve_expression value
      then (case output_field value of
              Inl e \<Rightarrow> Inl e
            | Inr vf \<Rightarrow>
               if vf \<noteq> JSONField
               then (case output_field self of
                       Inl e \<Rightarrow> Inl e
                     | Inr f \<Rightarrow> Inr (ToJSONB value (Some f)))
               else (case value of
                       Value (Lit PNone) vo \<Rightarrow>
                         (case output_field self of
                            Inl e \<Rightarrow> Inl e
                          | Inr f \<Rightarrow> Inr (Value (Lit PNone) (Some f)))
                     | _ \<Rightarrow> Inr value))
      else Inr value)"

text \<open>
  The value of the base case of \<open>JSONSet.as_oracle\<close>: a \<open>Value\<close> is wrapped in another \<open>Value\<close>
  with the node's output field.
\<close>

definition oracle_value :: "expr \<Rightarrow> expr \<Rightarrow> error + expr" where
  "oracle_value self value =
     (if is_Value value
      then (case output_field self of Inl e \<Rightarrow> Inl e | Inr f \<Rightarrow> Inr (Value value (Some f)))
      else Inr value)"

subsection \<open>A weight for the termination of compilation\<close>

text \<open>
  A recursive call of \<open>as_postgresql\<close> or \<open>as_oracle\<close> builds a new node around the old one,
  so the argument grows as a term; what decreases is the weight \<open>wt\<close>, in which a node with
  several pairs or paths pays for the nodes the recursion will build.
\<close>

fun wt :: "expr \<Rightarrow> nat" where
  "wt (Lit v) = 0"
| "wt (F name) = 0"
| "wt (Col name f) = 0"
| "wt (Value v f) = 0"
| "wt (Cast e f) = wt e + 5"
| "wt (ToJSONB e f) = wt e + 5"
| "wt (JSONObject srcs) = (\<Sum>x\<leftarrow>srcs. wt x + 9) + 2"
| "wt (JSONSet srcs f flds) =
     (\<Sum>x\<leftarrow>srcs. wt x + 4) + (\<Sum>kv\<leftarrow>flds. wt (snd kv) + 13)
     + (if length flds \<le> 1 then 0 else 10 * length flds) + 1"
| "wt (JSONRemove srcs paths) =
     (\<Sum>x\<leftarrow>srcs. wt x + 4) + 4 * length paths
     + (if length paths \<le> 1 then 0 else 10 * length paths) + 1"

definition wts :: "expr list \<Rightarrow> nat" where
  "wts xs = (\<Sum>x\<leftarrow>xs. wt x + 4)"

fun call_measure ::
  "((connection \<times> expr) + (connection \<times> expr list)
     + (connection \<times> expr list \<times> string option \<times> tpart list \<times> joiner))
   + (((connection \<times> expr \<times> tpart list option \<times> joiner option)
        + (connection \<times> expr \<times> string))
     + ((connection \<times> expr) + (connection \<times> expr))) \<Rightarrow> nat" where
  "call_measure (Inl (Inl (c, node))) = wt node + 3"
| "call_measure (Inl (Inr (Inl (c, xs)))) = wts xs"
| "call_measure (Inl (Inr (Inr (c, xs, fn, t, j)))) = wts xs + 1"
| "call_measure (Inr (Inl (Inl (c, node, t, j)))) =
     (case node of JSONObject xs \<Rightarrow> wts xs + 2 | _ \<Rightarrow> wt node + 1)"
| "call_measure (Inr (Inl (Inr (c, node, r)))) =
     (case node of JSONObject xs \<Rightarrow> wts xs + 3 | _ \<Rightarrow> 0)"
| "call_measure (Inr (Inr (Inl (c, node)))) = wt node + 2"
| "call_measure (Inr (Inr (Inr (c, node)))) = wt node + 2"

lemma wts_simps [simp]:
  "wts [] = 0" "wts (x # xs) = wt x + 4 + wts xs" "wts (xs @ ys) = wts xs + wts ys"
  by (simp_all add: wts_def)

lemma wts_alt: "(\<Sum>x\<leftarrow>xs. wt x + 4) = wts xs"
  by (simp add: wts_def)

lemma wts_le: "wts xs \<le> (\<Sum>x\<leftarrow>xs. wt x + 9)"
  by (induction xs) auto

lemma wts_enumerate_cast:
  "wts (map (\<lambda>(index, expression). if index mod 2 = 0 then Cast expression TextField
                                     else expression)
         (List.enumerate n xs)) \<le> (\<Sum>x\<leftarrow>xs. wt x + 9)"
proof (induction xs arbitrary: n)
  case Nil
  then show ?case by simp
next
  case (Cons x xs)
  show ?case using Cons.IH [of "Suc n"] by simp
qed

lemma wts_cast_keys: "wts (cast_keys xs) \<le> (\<Sum>x\<leftarrow>xs. wt x + 9)"
  unfolding cast_keys_def by (rule wts_enumerate_cast)

lemma wts_map_Value: "wts (map (\<lambda>p. Value (g p) None) paths) = 4 * length paths"
  by (induction paths) auto

lemma wts_set_items:
  "set_items self flds = Inr new \<Longrightarrow> wts new \<le> (\<Sum>kv\<leftarrow>flds. wt (snd kv) + 13)"
proof (induction flds arbitrary: new)
  case Nil
  then show ?case by simp
next
  case (Cons kv flds)
  obtain key v where kv: "kv = (key, v)" by (cases kv)
  from Cons.prems kv obtain v' tl' where
    v': "(if is_Value v
          then (case output_field self of Inl e \<Rightarrow> Inl e | Inr f \<Rightarrow> Inr (Cast v f))
          else Inr v) = Inr v'"
    and tl': "set_items self flds = Inr tl'"
    and new: "new = Value (Lit (PStr (compile_json_path (split key LOOKUP_SEP)))) None # v' # tl'"
    by (auto split: sum.splits)
  from v' have "wt v' \<le> wt v + 5" by (auto split: if_splits sum.splits)
  moreover from Cons.IH [OF tl'] have "wts tl' \<le> (\<Sum>kv\<leftarrow>flds. wt (snd kv) + 13)" .
  ultimately show ?case using kv new by simp
qed

lemma wt_pg_value: "pg_value self v = Inr v' \<Longrightarrow> wt v' \<le> wt v + 5"
  by (auto simp: pg_value_def split: if_splits sum.splits expr.splits pyval.splits)

lemma wt_oracle_value: "oracle_value self v = Inr v' \<Longrightarrow> wt v' \<le> wt v"
  by (auto simp: oracle_value_def split: if_splits sum.splits)

lemma update_sum_le:
  "(\<Sum>kv\<leftarrow>AList.update k v al. wt (snd kv) + 13)
     \<le> (\<Sum>kv\<leftarrow>al. wt (snd kv) + 13) + (wt v + 13)"
  by (induction al) auto

lemma update_length_le: "length (AList.update k v al) \<le> Suc (length al)"
  by (induction al) auto

lemma foldl_update_sum_le:
  "(\<Sum>kv\<leftarrow>foldl (\<lambda>d (k, v). AList.update k v d) d items. wt (snd kv) + 13)
     \<le> (\<Sum>kv\<leftarrow>d. wt (snd kv) + 13) + (\<Sum>kv\<leftarrow>items. wt (snd kv) + 13)"
proof (induction items arbitrary: d)
  case Nil
  then show ?case by simp
next
  case (Cons a items)
  obtain k v where a: "a = (k, v)" by (cases a)
  have "(\<Sum>kv\<leftarrow>foldl (\<lambda>d (k, v). AList.update k v d) (AList.update k v d) items.
            wt (snd kv) + 13)
          \<le> (\<Sum>kv\<leftarrow>AList.update k v d. wt (snd kv) + 13)
             + (\<Sum>kv\<leftarrow>items. wt (snd kv) + 13)"
    by (rule Cons.IH)
  also have "\<dots> \<le> (\<Sum>kv\<leftarrow>d. wt (snd kv) + 13) + (wt v + 13)
                   + (\<Sum>kv\<leftarrow>items. wt (snd kv) + 13)"
    using update_sum_le [of k v d] by simp
  finally show ?case using a by simp
qed

lemma foldl_update_length_le:
  "length (foldl (\<lambda>d (k, v). AList.update k v d) d items) \<le> length d + length items"
proof (induction items arbitrary: d)
  case Nil
  then show ?case by simp
next
  case (Cons a items)
  obtain k v where a: "a = (k, v)" by (cases a)
  show ?case using Cons.IH [of "AList.update k v d"] update_length_le [of k v d] a by simp
qed

lemma dict_sum_le:
  "(\<Sum>kv\<leftarrow>dict items. wt (snd kv) + 13) \<le> (\<Sum>kv\<leftarrow>items. wt (snd kv) + 13)"
  using foldl_update_sum_le [of "[]" items] by (simp add: dict_def)

lemma dict_length_le: "length (dict items) \<le> length items"
  using foldl_update_length_le [of "[]" items] by (simp add: dict_def)

lemma wt_JSONSet_step:
  assumes "JSONSet_init (JSONSet srcs f [(key, v)]) None (dict (r # rest)) = Inr node"
  shows "wt node < wt (JSONSet srcs f ((key, v) # r # rest))"
proof -
  let ?d = "dict (r # rest)"
  from assms have node: "node = JSONSet [JSONSet srcs f [(key, v)]] None ?d"
    by (auto simp: JSONSet_init_def split: if_splits)
  have "(if length ?d \<le> 1 then 0 else 10 * length ?d) \<le> 10 * length (r # rest)"
    using dict_length_le [of "r # rest"] by auto
  moreover have "(\<Sum>kv\<leftarrow>?d. wt (snd kv) + 13) \<le> (\<Sum>kv\<leftarrow>r # rest. wt (snd kv) + 13)"
    by (rule dict_sum_le)
  ultimately show ?thesis unfolding node by (simp add: wts_alt)
qed

lemma wt_JSONRemove_step:
  assumes "JSONRemove_init (JSONRemove srcs [path]) (r # rest) = Inr node"
  shows "wt node < wt (JSONRemove srcs (path # r # rest))"
proof -
  from assms have node: "node = JSONRemove [JSONRemove srcs [path]] (r # rest)"
    by (auto simp: JSONRemove_init_def split: if_splits)
  show ?thesis unfolding node by (simp add: wts_alt)
qed

subsection \<open>Compilation\<close>

text \<open>
  Modelled from the spec: \<open>compile\<close> is the \<open>compile\<close> method of the SQL compiler and
  \<open>Func_as_sql\<close> the \<open>as_sql\<close> method of \<open>Func\<close>, neither among the sources. \<open>compile\<close> calls
  the method \<open>as_<vendor>\<close> of the node when the node has one and \<open>as_sql\<close> otherwise;
  \<open>Func_as_sql\<close> compiles every source expression in order (\<open>compile_all\<close> is that loop),
  joins the texts with the \<open>arg_joiner\<close> and fills the template. A \<open>Value\<close> compiles to a
  placeholder with its value as the parameter: a \<open>None\<close> typed as JSON is the "typed JSON
  null" of the spec, bound as a parameter, and any other \<open>None\<close> is the "bare SQL NULL", the
  SQL literal \<open>NULL\<close>. A column compiles to its quoted name, \<open>Cast\<close> to
  \<open>CAST(... AS type)\<close>.

  The methods \<open>as_sql\<close>, \<open>as_native\<close>, \<open>as_postgresql\<close> and \<open>as_oracle\<close> of the three builders
  follow the source. \<open>self.copy()\<close> followed by updates of the copy is the node with the
  updated components. The optional arguments of \<open>as_sql\<close> are the \<open>template\<close> and \<open>arg_joiner\<close>
  entries of \<open>**extra_context\<close>.
\<close>

function (sequential)
      compile :: "connection \<Rightarrow> expr \<Rightarrow> error + sql"
  and compile_all :: "connection \<Rightarrow> expr list \<Rightarrow> error + (string list \<times> param list)"
  and Func_as_sql ::
        "connection \<Rightarrow> expr list \<Rightarrow> string option \<Rightarrow> tpart list \<Rightarrow> joiner \<Rightarrow> error + sql"
  and as_sql :: "connection \<Rightarrow> expr \<Rightarrow> tpart list option \<Rightarrow> joiner option \<Rightarrow> error + sql"
  and as_native :: "connection \<Rightarrow> expr \<Rightarrow> string \<Rightarrow> error + sql"
  and as_postgresql :: "connection \<Rightarrow> expr \<Rightarrow> error + sql"
  and as_oracle :: "connection \<Rightarrow> expr \<Rightarrow> error + sql"
where
  "compile c node =
     (if vendor c = PostgreSQL \<and> has_vendor_impl node then as_postgresql c node
      else if vendor c = Oracle \<and> has_vendor_impl node then as_oracle c node
      else as_sql c node None None)"
| "compile_all c [] = Inr ([], [])"
| "compile_all c (arg # args) =
     (case compile c arg of
        Inl e \<Rightarrow> Inl e
      | Inr (arg_sql, arg_params) \<Rightarrow>
          (case compile_all c args of
             Inl e \<Rightarrow> Inl e
           | Inr (sql_parts, params) \<Rightarrow> Inr (arg_sql # sql_parts, arg_params @ params)))"
| "Func_as_sql c source_expressions function template arg_joiner =
     (case compile_all c source_expressions of
        Inl e \<Rightarrow> Inl e
      | Inr (sql_parts, params) \<Rightarrow>
          (case arg_joiner_join arg_joiner sql_parts of
             Inl e \<Rightarrow> Inl e
           | Inr expressions \<Rightarrow> Inr (render template function expressions, params)))"
| "as_sql c (Lit v) template arg_joiner = Inl AttributeError"
| "as_sql c (F name) template arg_joiner = Inl AttributeError"
| "as_sql c (Col name f) template arg_joiner = Inr ([CHR 0x22] @ name @ [CHR 0x22], [])"
| "as_sql c (Value v f) template arg_joiner =
     (if v = Lit PNone \<and> f \<noteq> Some JSONField then Inr (''NULL'', [])
      else Inr (''%s'', [Param v f]))"
| "as_sql c (Cast e f) template arg_joiner =
     Func_as_sql c [e] (Some ''CAST'')
       [TFunction, TText ''('', TExpressions, TText ('' AS '' @ db_type f @ '')'')] (JStr '', '')"
| "as_sql c (ToJSONB e f) template arg_joiner =
     Func_as_sql c [e] (Some ''TO_JSONB'') default_template (JStr '', '')"
| "as_sql c (JSONObject srcs) template arg_joiner =
     (if \<not> has_json_object_function (features c) then Inl NotSupportedError
      else Func_as_sql c srcs (Some ''JSON_OBJECT'')
             (case template of None \<Rightarrow> default_template | Some t \<Rightarrow> t)
             (case arg_joiner of None \<Rightarrow> JStr '', '' | Some j \<Rightarrow> j))"
| "as_sql c (JSONSet srcs f flds) template arg_joiner =
     (if \<not> supports_partial_json_update (features c) then Inl NotSupportedError
      else (case set_items (JSONSet srcs f flds) flds of
              Inl e \<Rightarrow> Inl e
            | Inr new \<Rightarrow>
                Func_as_sql c (srcs @ new) (Some ''JSON_SET'') default_template (JStr '', '')))"
| "as_sql c (JSONRemove srcs paths) template arg_joiner =
     (if \<not> supports_partial_json_update (features c) then Inl NotSupportedError
      else Func_as_sql c
             (srcs @ map (\<lambda>path. Value (Lit (PStr (compile_json_path (split path LOOKUP_SEP))))
                                 None) paths)
             (Some ''JSON_REMOVE'') default_template (JStr '', ''))"
| "as_native c (JSONObject srcs) returning =
     as_sql c (JSONObject srcs)
       (Some [TFunction, TText ''('', TExpressions, TText ('' RETURNING '' @ returning @ '')'')])
       (Some (JObj (JSONObject srcs)))"
| "as_native c node returning = Inl AttributeError"
| "as_postgresql c (JSONObject srcs) =
     (if is_postgresql_16 (features c) then as_native c (JSONObject (cast_keys srcs)) ''JSONB''
      else Func_as_sql c (cast_keys srcs) (Some ''JSONB_BUILD_OBJECT'') default_template
             (JStr '', ''))"
| "as_postgresql c (JSONSet srcs f []) = Inl IndexError"
| "as_postgresql c (JSONSet srcs f [(key, value)]) =
     (case pg_value (JSONSet srcs f [(key, value)]) value of
        Inl e \<Rightarrow> Inl e
      | Inr value' \<Rightarrow>
          Func_as_sql c (srcs @ [Value (Lit (PList (split key LOOKUP_SEP))) None, value'])
            (Some ''JSONB_SET'') default_template (JStr '', ''))"
| "as_postgresql c (JSONSet srcs f ((key, value) # r # rest)) =
     (case JSONSet_init (JSONSet srcs f [(key, value)]) None (dict (r # rest)) of
        Inl e \<Rightarrow> Inl e
      | Inr node \<Rightarrow> as_postgresql c node)"
| "as_postgresql c (JSONRemove srcs []) = Inl ValueError"
| "as_postgresql c (JSONRemove srcs [path]) =
     Func_as_sql c (srcs @ [Value (Lit (PList (split path LOOKUP_SEP))) None])
       None [TExpressions] (JStr ''#- '')"
| "as_postgresql c (JSONRemove srcs (path # r # rest)) =
     (case JSONRemove_init (JSONRemove srcs [path]) (r # rest) of
        Inl e \<Rightarrow> Inl e
      | Inr node \<Rightarrow> as_postgresql c node)"
| "as_postgresql c node = Inl AttributeError"
| "as_oracle c (JSONObject srcs) = as_native c (JSONObject srcs) ''CLOB''"
| "as_oracle c (JSONSet srcs f flds) =
     (if \<not> supports_partial_json_update (features c) then Inl NotSupportedError
      else (case flds of
              [] \<Rightarrow> Inl IndexError
            | [(key, value)] \<Rightarrow>
                (case oracle_value (JSONSet srcs f flds) value of
                   Inl e \<Rightarrow> Inl e
                 | Inr value' \<Rightarrow>
                     Func_as_sql c (srcs @ [value']) (Some ''JSON_TRANSFORM'') default_template
                       (JObj (JSONSet srcs f flds)))
            | (key, value) # rest \<Rightarrow>
                (case JSONSet_init (JSONSet srcs f [(key, value)]) None (dict rest) of
                   Inl e \<Rightarrow> Inl e
                 | Inr node \<Rightarrow> as_oracle c node)))"
| "as_oracle c (JSONRemove srcs paths) =
     (if \<not> supports_partial_json_update (features c) then Inl NotSupportedError
      else (case paths of
              [] \<Rightarrow> Inl ValueError
            | [path] \<Rightarrow>
                Func_as_sql c srcs (Some ''JSON_TRANSFORM'') default_template
                  (JObj (JSONRemove srcs paths))
            | path # rest \<Rightarrow>
                (case JSONRemove_init (JSONRemove srcs [path]) rest of
                   Inl e \<Rightarrow> Inl e
                 | Inr node \<Rightarrow> as_oracle c node)))"
| "as_oracle c node = Inl AttributeError"
  by pat_completeness auto

termination
proof (relation "measure call_measure", goal_cases)
  case 1
  show ?case by simp
next
  case 2
  then show ?case by simp
next
  case 3
  then show ?case by simp
next
  case (4 c node)
  show ?case
  proof (cases node)
    case (JSONObject xs)
    then show ?thesis using wts_le [of xs] by simp
  qed simp_all
next
  case 5
  then show ?case by simp
next
  case 6
  then show ?case by simp
next
  case 7
  then show ?case by simp
next
  case 8
  then show ?case by simp
next
  case 9
  then show ?case by simp
next
  case 10
  then show ?case by simp
next
  case (11 c srcs f flds template arg_joiner new)
  then show ?case using wts_set_items [of "JSONSet srcs f flds" flds new] by (simp add: wts_alt)
next
  case 12
  then show ?case by (simp add: wts_alt wts_map_Value)
next
  case 13
  then show ?case by simp
next
  case (14 c srcs)
  then show ?case using wts_cast_keys [of srcs] by simp
next
  case (15 c srcs)
  then show ?case using wts_cast_keys [of srcs] by simp
next
  case (16 c srcs f key v v')
  then show ?case
    using wt_pg_value [of "JSONSet srcs f [(key, v)]" v v'] by (simp add: wts_alt)
next
  case (17 c srcs f key v r rest node)
  then show ?case using wt_JSONSet_step [of srcs f key v r rest node] by simp
next
  case 18
  then show ?case by (simp add: wts_alt)
next
  case (19 c srcs path r rest node)
  then show ?case using wt_JSONRemove_step [of srcs path r rest node] by simp
next
  case (20 c srcs)
  then show ?case using wts_le [of srcs] by simp
next
  case 21
  then show ?case by (auto simp: wts_alt dest!: wt_oracle_value)
next
  case 22
  then show ?case by (auto simp del: wt.simps dest: wt_JSONSet_step)
next
  case 23
  then show ?case by (simp add: wts_alt)
next
  case 24
  then show ?case by (auto simp del: wt.simps dest: wt_JSONRemove_step)
qed

declare compile.simps [simp del]

subsection \<open>One application of a single-path function\<close>

text \<open>
  The text and parameters of one application of the native functions that take one path per
  call, given the compiled target and, for the set functions, the pair and its compiled value:
  the PostgreSQL delete-path operator \<open>#-\<close>, \<open>JSONB_SET\<close>, and the Oracle \<open>JSON_TRANSFORM\<close>
  with a \<open>SET\<close> clause. The nested results of the recursive methods are stated with them.
\<close>

definition delete_path :: "sql \<Rightarrow> string \<Rightarrow> sql" where
  "delete_path target path =
     (fst target @ ''#- %s'', snd target @ [Param (Lit (PList (split path LOOKUP_SEP))) None])"

definition jsonb_set :: "sql \<Rightarrow> (string \<times> expr) \<times> sql \<Rightarrow> sql" where
  "jsonb_set target pair =
     (''JSONB_SET('' @ fst target @ '', %s, '' @ fst (snd pair) @ '')'',
      snd target @ [Param (Lit (PList (split (fst (fst pair)) LOOKUP_SEP))) None] @ snd (snd pair))"

definition json_transform_set :: "sql \<Rightarrow> (string \<times> expr) \<times> sql \<Rightarrow> sql" where
  "json_transform_set target pair =
     (''JSON_TRANSFORM('' @ fst target @ '', SET q'' @ [CHR 0x27] @ uffff
        @ compile_json_path (split (fst (fst pair)) LOOKUP_SEP) @ uffff @ [CHR 0x27] @ '' = ''
        @ fst (snd pair) @ (if is_Value (snd (fst pair)) then '' FORMAT JSON'' else [])
        @ '')'',
      snd target @ snd (snd pair))"

text \<open>
  The text of a \<open>JSON_OBJECT\<close> call in the form of \<open>as_native\<close>: the compiled children taken
  in pairs, each pair as the parenthesised key, the keyword \<open>VALUE\<close> and the value, followed by
  the \<open>RETURNING\<close> clause.
\<close>

definition json_object_native :: "string list \<Rightarrow> string \<Rightarrow> string" where
  "json_object_native parts returning =
     ''JSON_OBJECT(''
       @ str_join '', '' (map (\<lambda>i. ''('' @ parts ! (2 * i) @ '') VALUE '' @ parts ! (2 * i + 1))
                             [0..<length parts div 2])
       @ '' RETURNING '' @ returning @ '')''"

text \<open>
  The compiled update value of a pair: the value as the base case of \<open>as_postgresql\<close> or
  \<open>as_oracle\<close> coerces it, then compiled.
\<close>

definition pg_compile_value :: "connection \<Rightarrow> expr \<Rightarrow> expr \<Rightarrow> error + sql" where
  "pg_compile_value c self value =
     (case pg_value self value of Inl e \<Rightarrow> Inl e | Inr value' \<Rightarrow> compile c value')"

definition oracle_compile_value :: "connection \<Rightarrow> expr \<Rightarrow> expr \<Rightarrow> error + sql" where
  "oracle_compile_value c self value =
     (case oracle_value self value of Inl e \<Rightarrow> Inl e | Inr value' \<Rightarrow> compile c value')"

subsection \<open>Resolution and introspection of the builders\<close>

text \<open>
  \<open>JSONSet.resolve_expression\<close>. The resolution of the source expressions by
  \<open>super().resolve_expression\<close> and of an update value that is an expression are given by the
  parameter \<open>resolve\<close>; an update value that is not an expression becomes
  \<open>Value(value, output_field=c.output_field)\<close>.
\<close>

fun map_result :: "('a \<Rightarrow> error + 'b) \<Rightarrow> 'a list \<Rightarrow> error + 'b list" where
  "map_result g [] = Inr []"
| "map_result g (x # xs) =
     (case g x of
        Inl e \<Rightarrow> Inl e
      | Inr y \<Rightarrow> (case map_result g xs of Inl e \<Rightarrow> Inl e | Inr ys \<Rightarrow> Inr (y # ys)))"

fun resolve_fields ::
  "(expr \<Rightarrow> error + expr) \<Rightarrow> expr \<Rightarrow> (string \<times> expr) list \<Rightarrow> error + (string \<times> expr) list" where
  "resolve_fields resolve c [] = Inr []"
| "resolve_fields resolve c ((key, value) # items) =
     (case (if has_resolve_expression value then resolve value
            else (case output_field c of
                    Inl e \<Rightarrow> Inl e
                  | Inr f \<Rightarrow> Inr (Value value (Some f)))) of
        Inl e \<Rightarrow> Inl e
      | Inr value' \<Rightarrow>
          (case resolve_fields resolve c items of
             Inl e \<Rightarrow> Inl e
           | Inr items' \<Rightarrow> Inr ((key, value') # items')))"

fun resolve_expression :: "(expr \<Rightarrow> error + expr) \<Rightarrow> expr \<Rightarrow> error + expr" where
  "resolve_expression resolve (JSONSet srcs f flds) =
     (case map_result resolve srcs of
        Inl e \<Rightarrow> Inl e
      | Inr srcs' \<Rightarrow>
          (case resolve_fields resolve (JSONSet srcs' f flds) flds of
             Inl e \<Rightarrow> Inl e
           | Inr flds' \<Rightarrow> Inr (JSONSet srcs' f flds')))"
| "resolve_expression resolve e = resolve e"

text \<open>
  \<open>_get_repr_options\<close>, the same method body in \<open>JSONSet\<close> and in \<open>JSONRemove\<close>:
  \<open>{**super().get_repr_options(), **self.fields}\<close>. The outcome of the call to the base class
  is the parameter \<open>super_options\<close>; \<open>getattr_fields\<close> reads the attribute \<open>fields\<close>, which
  only \<open>JSONSet.__init__\<close> sets.
\<close>

fun getattr_fields :: "expr \<Rightarrow> error + (string \<times> expr) list" where
  "getattr_fields (JSONSet srcs f flds) = Inr flds"
| "getattr_fields e = Inl AttributeError"

definition u_get_repr_options ::
  "error + (string \<times> expr) list \<Rightarrow> expr \<Rightarrow> error + (string \<times> expr) list" where
  "u_get_repr_options super_options self =
     (case super_options of
        Inl e \<Rightarrow> Inl e
      | Inr options \<Rightarrow>
          (case getattr_fields self of
             Inl e \<Rightarrow> Inl e
           | Inr flds \<Rightarrow> Inr (dict (options @ flds))))"

section \<open>The builders as objects in a store\<close>

text \<open>
  The functions above compute what a node compiles to. Whether compiling a node changes it is
  a question about objects: \<open>self.copy()\<close> makes a new object that shares what it does not
  copy, and the methods then append to lists and rebind attributes. Here the objects live
  in a store, a list of objects whose indices are the addresses. A new object is appended to
  the store, so an address keeps its meaning; a method takes the store and returns the store
  it leaves.
\<close>

subsection \<open>Objects\<close>

type_synonym addr = nat

text \<open>The classes of the function nodes.\<close>

datatype cls = CCast | CToJSONB | CJSONObject | CJSONSet | CJSONRemove

text \<open>
  An object is a plain value, a field reference, a column, a \<open>Value\<close> (never changed once
  built, so it holds its value and output field as they are), a function node, a list or a
  dict. A function node has its class, the address of its list of source expressions, its
  declared output field, the address of its \<open>fields\<close> dict when it has one, and its \<open>paths\<close>
  tuple; a list holds addresses and a dict maps keys to addresses.
\<close>

datatype obj =
    OLit pyval
  | OF string
  | OCol string field
  | OValue expr "field option"
  | OFunc cls addr "field option" "addr option" "string list"
  | OList "addr list"
  | ODict "(string \<times> addr) list"

type_synonym heap = "obj list"

text \<open>An \<open>arg_joiner\<close> is a string or the address of an object with a \<open>join\<close> method.\<close>

datatype hjoiner = HJStr string | HJObj addr

text \<open>
  What a method does: the store it leaves together with the value it returns or the
  exception it raises. The methods that call each other are defined by recursion on fuel, and
  \<open>None\<close> is the result of a call that ran out of it.
\<close>

type_synonym 'a hres = "(heap \<times> (error + 'a)) option"

text \<open>Reading an address, allocating an object, and sequencing.\<close>

definition lookup :: "heap \<Rightarrow> addr \<Rightarrow> obj option" where
  "lookup h a = (if a < length h then Some (h ! a) else None)"

definition alloc :: "heap \<Rightarrow> obj \<Rightarrow> heap \<times> addr" where
  "alloc h ob = (h @ [ob], length h)"

definition hret :: "heap \<Rightarrow> 'a \<Rightarrow> 'a hres" where
  "hret h x = Some (h, Inr x)"

definition hraise :: "heap \<Rightarrow> error \<Rightarrow> 'a hres" where
  "hraise h e = Some (h, Inl e)"

definition hbind :: "'a hres \<Rightarrow> (heap \<Rightarrow> 'a \<Rightarrow> 'b hres) \<Rightarrow> 'b hres" where
  "hbind m k = (case m of None \<Rightarrow> None | Some (h, Inl e) \<Rightarrow> Some (h, Inl e) | Some (h, Inr x) \<Rightarrow> k h x)"

text \<open>The items of the list and of the dict at an address.\<close>

definition list_items :: "heap \<Rightarrow> addr \<Rightarrow> addr list option" where
  "list_items h l = (case lookup h l of Some (OList xs) \<Rightarrow> Some xs | _ \<Rightarrow> None)"

definition dict_items :: "heap \<Rightarrow> addr \<Rightarrow> (string \<times> addr) list option" where
  "dict_items h d = (case lookup h d of Some (ODict kvs) \<Rightarrow> Some kvs | _ \<Rightarrow> None)"

text \<open>
  Modelled from the spec: \<open>get_source_expressions\<close>, \<open>set_source_expressions\<close> and \<open>copy\<close> of
  \<open>Func\<close> are not among the sources. \<open>get_source_expressions\<close> returns the list of the node
  itself, not a copy of it, so that appending to what it returns changes the node;
  \<open>set_source_expressions\<close> binds the node to a list. \<open>copy\<close> is the clone of "mutations happen
  on a clone": a new node with the attributes of the old one, which therefore shares the
  \<open>fields\<close> dict, and with a list of source expressions of its own that holds the same items.
  Binding an attribute (\<open>copy.fields = ...\<close>, \<open>copy.paths = ...\<close>) and appending to a list change
  the object at its address.
\<close>

definition h_get_source_expressions :: "heap \<Rightarrow> addr \<Rightarrow> addr option" where
  "h_get_source_expressions h a =
     (case lookup h a of Some (OFunc k l outf d p) \<Rightarrow> Some l | _ \<Rightarrow> None)"

definition h_set_source_expressions :: "heap \<Rightarrow> addr \<Rightarrow> addr \<Rightarrow> heap" where
  "h_set_source_expressions h a l =
     (case lookup h a of Some (OFunc k l0 outf d p) \<Rightarrow> h[a := OFunc k l outf d p] | _ \<Rightarrow> h)"

definition h_set_fields :: "heap \<Rightarrow> addr \<Rightarrow> addr \<Rightarrow> heap" where
  "h_set_fields h a d =
     (case lookup h a of Some (OFunc k l outf d0 p) \<Rightarrow> h[a := OFunc k l outf (Some d) p] | _ \<Rightarrow> h)"

definition h_set_paths :: "heap \<Rightarrow> addr \<Rightarrow> string list \<Rightarrow> heap" where
  "h_set_paths h a p =
     (case lookup h a of Some (OFunc k l outf d p0) \<Rightarrow> h[a := OFunc k l outf d p] | _ \<Rightarrow> h)"

definition h_extend :: "heap \<Rightarrow> addr \<Rightarrow> addr list \<Rightarrow> heap" where
  "h_extend h l new = (case lookup h l of Some (OList xs) \<Rightarrow> h[l := OList (xs @ new)] | _ \<Rightarrow> h)"

definition h_copy :: "heap \<Rightarrow> addr \<Rightarrow> addr hres" where
  "h_copy h a =
     (case lookup h a of
        Some (OFunc k l outf d p) \<Rightarrow>
          (case list_items h l of
             Some xs \<Rightarrow>
               (let (h1, ca) = alloc h (OFunc k l outf d p);
                    (h2, l') = alloc h1 (OList xs)
                in hret (h_set_source_expressions h2 ca l') ca)
           | None \<Rightarrow> hraise h AttributeError)
      | _ \<Rightarrow> hraise h AttributeError)"

subsection \<open>The base classes and the join methods on objects\<close>

text \<open>
  The tests \<open>isinstance(value, Value)\<close> and \<open>hasattr(value, "resolve_expression")\<close>, the classes
  with vendor methods, \<open>output_field\<close> (which follows the first source expression of a node
  without a declared field, hence the fuel) and the \<open>join\<close> methods, as in the functions
  \<open>is_Value\<close>, \<open>has_resolve_expression\<close>, \<open>has_vendor_impl\<close>, \<open>output_field\<close> and \<open>join\<close>.
\<close>

definition h_is_Value :: "heap \<Rightarrow> addr \<Rightarrow> bool" where
  "h_is_Value h a = (case lookup h a of Some (OValue v f) \<Rightarrow> True | _ \<Rightarrow> False)"

definition h_has_resolve_expression :: "heap \<Rightarrow> addr \<Rightarrow> bool" where
  "h_has_resolve_expression h a =
     (case lookup h a of
        Some (OLit v) \<Rightarrow> False
      | Some (OList xs) \<Rightarrow> False
      | Some (ODict kvs) \<Rightarrow> False
      | Some ob \<Rightarrow> True
      | None \<Rightarrow> False)"

definition h_has_vendor_impl :: "heap \<Rightarrow> addr \<Rightarrow> bool" where
  "h_has_vendor_impl h a =
     (case lookup h a of
        Some (OFunc k l outf d p) \<Rightarrow> k = CJSONObject \<or> k = CJSONSet \<or> k = CJSONRemove
      | _ \<Rightarrow> False)"

fun h_output_field :: "nat \<Rightarrow> heap \<Rightarrow> addr \<Rightarrow> (error + field) option" where
  "h_output_field 0 h a = None"
| "h_output_field (Suc n) h a =
     (case lookup h a of
        Some (OCol name f) \<Rightarrow> Some (Inr f)
      | Some (OValue v (Some f)) \<Rightarrow> Some (Inr f)
      | Some (OValue v None) \<Rightarrow> Some (output_field (Value v None))
      | Some (OFunc k l outf d p) \<Rightarrow>
          (if k = CJSONObject then Some (Inr JSONField)
           else (case outf of
                   Some f \<Rightarrow> Some (Inr f)
                 | None \<Rightarrow>
                     if k = CCast then Some (Inl FieldError)
                     else (case list_items h l of
                             Some (s # ss) \<Rightarrow> h_output_field n h s
                           | _ \<Rightarrow> Some (Inl FieldError))))
      | _ \<Rightarrow> Some (Inl AttributeError))"

fun h_join_obj :: "heap \<Rightarrow> obj \<Rightarrow> string list \<Rightarrow> error + string" where
  "h_join_obj h (OFunc CJSONObject l outf d p) args =
     (case zip_strict (every_other args) (every_other (drop 1 args)) of
        Inl e \<Rightarrow> Inl e
      | Inr pairs \<Rightarrow>
          Inr (str_join '', '' (map (\<lambda>(key, value). ''('' @ key @ '') VALUE '' @ value) pairs)))"
| "h_join_obj h (OFunc CJSONSet l outf (Some d) p) args =
     (case dict_items h d of
        Some ((key, value) # items) \<Rightarrow>
          (if args = [] then Inl IndexError
           else let key_paths_join = compile_json_path (split key LOOKUP_SEP);
                    template = hd args @ '', SET q'' @ [CHR 0x27] @ uffff @ key_paths_join @ uffff
                               @ [CHR 0x27] @ '' = '' @ last args
                in if h_is_Value h value then Inr (template @ '' FORMAT JSON'') else Inr template)
      | Some [] \<Rightarrow> Inl IndexError
      | None \<Rightarrow> Inl AttributeError)"
| "h_join_obj h (OFunc CJSONRemove l outf d []) args = Inl IndexError"
| "h_join_obj h (OFunc CJSONRemove l outf d (path # paths)) args =
     (if args = [] then Inl IndexError
      else Inr (hd args @ '', REMOVE q'' @ [CHR 0x27] @ uffff
                @ compile_json_path (split path LOOKUP_SEP) @ uffff @ [CHR 0x27]))"
| "h_join_obj h ob args = Inl AttributeError"

fun h_arg_joiner_join :: "heap \<Rightarrow> hjoiner \<Rightarrow> string list \<Rightarrow> error + string" where
  "h_arg_joiner_join h (HJStr sep) sql_parts = Inr (str_join sep sql_parts)"
| "h_arg_joiner_join h (HJObj a) sql_parts =
     (case lookup h a of None \<Rightarrow> Inl AttributeError | Some ob \<Rightarrow> h_join_obj h ob sql_parts)"

subsection \<open>Constructors and value coercion on objects\<close>

text \<open>\<open>self.fields.items()\<close> and \<open>self.paths\<close>.\<close>

definition h_fields_items :: "heap \<Rightarrow> addr \<Rightarrow> (string \<times> addr) list option" where
  "h_fields_items h a =
     (case lookup h a of Some (OFunc k l outf (Some d) p) \<Rightarrow> dict_items h d | _ \<Rightarrow> None)"

definition h_paths :: "heap \<Rightarrow> addr \<Rightarrow> string list option" where
  "h_paths h a = (case lookup h a of Some (OFunc k l outf d p) \<Rightarrow> Some p | _ \<Rightarrow> None)"

text \<open>
  \<open>Cast(expression, output_field)\<close> and \<open>ToJSONB(expression, output_field=...)\<close>: a new list of
  source expressions and a new node.
\<close>

definition h_new_func :: "heap \<Rightarrow> cls \<Rightarrow> addr list \<Rightarrow> field option \<Rightarrow> heap \<times> addr" where
  "h_new_func h k args outf =
     (let (h1, l) = alloc h (OList args) in alloc h1 (OFunc k l outf None []))"

text \<open>
  \<open>Func.__init__\<close> wraps an argument that is not an expression in a new object.
  \<open>JSONSet.__init__\<close> keeps the dict of its keyword arguments as \<open>fields\<close>, a new object, and
  \<open>JSONRemove.__init__\<close> its paths.
\<close>

definition h_parse_expression :: "heap \<Rightarrow> addr \<Rightarrow> heap \<times> addr" where
  "h_parse_expression h a =
     (case lookup h a of
        Some (OLit (PStr name)) \<Rightarrow> alloc h (OF name)
      | Some (OLit v) \<Rightarrow> alloc h (OValue (Lit v) None)
      | _ \<Rightarrow> (h, a))"

definition h_JSONSet_init :: "heap \<Rightarrow> addr \<Rightarrow> field option \<Rightarrow> (string \<times> addr) list \<Rightarrow> addr hres" where
  "h_JSONSet_init h expression outf kwargs =
     (if kwargs = [] then hraise h TypeError
      else (let (h1, d) = alloc h (ODict kwargs);
                (h2, e) = h_parse_expression h1 expression;
                (h3, l) = alloc h2 (OList [e]);
                (h4, a) = alloc h3 (OFunc CJSONSet l outf (Some d) [])
            in hret h4 a))"

definition h_JSONRemove_init :: "heap \<Rightarrow> addr \<Rightarrow> string list \<Rightarrow> addr hres" where
  "h_JSONRemove_init h expression paths =
     (if paths = [] then hraise h TypeError
      else (let (h1, e) = h_parse_expression h expression;
                (h2, l) = alloc h1 (OList [e]);
                (h3, a) = alloc h2 (OFunc CJSONRemove l None None paths)
            in hret h3 a))"

text \<open>
  The values the methods build: the \<open>Cast\<close> around every key of
  \<open>JSONObject.as_postgresql\<close>, the path and value arguments of the loop of \<open>JSONSet.as_sql\<close>,
  and the coerced value of the base cases of \<open>JSONSet.as_postgresql\<close> and \<open>JSONSet.as_oracle\<close>.
  Each allocates the objects it creates and returns their addresses.
\<close>

fun h_alloc_all :: "heap \<Rightarrow> obj list \<Rightarrow> heap \<times> addr list" where
  "h_alloc_all h [] = (h, [])"
| "h_alloc_all h (ob # obs) =
     (let (h1, a) = alloc h ob; (h2, as) = h_alloc_all h1 obs in (h2, a # as))"

fun h_cast_keys :: "heap \<Rightarrow> (nat \<times> addr) list \<Rightarrow> heap \<times> addr list" where
  "h_cast_keys h [] = (h, [])"
| "h_cast_keys h ((index, expression) # rest) =
     (let (h1, x) = (if index mod 2 = 0 then h_new_func h CCast [expression] (Some TextField)
                     else (h, expression));
          (h2, xs) = h_cast_keys h1 rest
      in (h2, x # xs))"

fun h_set_items :: "nat \<Rightarrow> heap \<Rightarrow> addr \<Rightarrow> (string \<times> addr) list \<Rightarrow> addr list hres" where
  "h_set_items n h self [] = hret h []"
| "h_set_items n h self ((key, value) # items) =
     (let (h1, pa) = alloc h (OValue (Lit (PStr (compile_json_path (split key LOOKUP_SEP)))) None)
      in hbind (if h_is_Value h1 value
                then (case h_output_field n h1 self of
                        None \<Rightarrow> None
                      | Some (Inl e) \<Rightarrow> hraise h1 e
                      | Some (Inr f) \<Rightarrow>
                          (let (h2, ca) = h_new_func h1 CCast [value] (Some f) in hret h2 ca))
                else hret h1 value)
           (\<lambda>h2 value'. hbind (h_set_items n h2 self items)
                           (\<lambda>h3 tail. hret h3 (pa # value' # tail))))"

definition h_pg_value :: "nat \<Rightarrow> heap \<Rightarrow> addr \<Rightarrow> addr \<Rightarrow> addr hres" where
  "h_pg_value n h self value =
     (if h_has_resolve_expression h value
      then (case h_output_field n h value of
              None \<Rightarrow> None
            | Some (Inl e) \<Rightarrow> hraise h e
            | Some (Inr vf) \<Rightarrow>
                if vf \<noteq> JSONField
                then (case h_output_field n h self of
                        None \<Rightarrow> None
                      | Some (Inl e) \<Rightarrow> hraise h e
                      | Some (Inr f) \<Rightarrow>
                          (let (h1, ta) = h_new_func h CToJSONB [value] (Some f) in hret h1 ta))
                else (case lookup h value of
                        Some (OValue (Lit PNone) vo) \<Rightarrow>
                          (case h_output_field n h self of
                             None \<Rightarrow> None
                           | Some (Inl e) \<Rightarrow> hraise h e
                           | Some (Inr f) \<Rightarrow>
                               (let (h1, va) = alloc h (OValue (Lit PNone) (Some f)) in hret h1 va))
                      | _ \<Rightarrow> hret h value))
      else hret h value)"

definition h_oracle_value :: "nat \<Rightarrow> heap \<Rightarrow> addr \<Rightarrow> addr \<Rightarrow> addr hres" where
  "h_oracle_value n h self value =
     (case lookup h value of
        Some (OValue v vf) \<Rightarrow>
          (case h_output_field n h self of
             None \<Rightarrow> None
           | Some (Inl e) \<Rightarrow> hraise h e
           | Some (Inr f) \<Rightarrow>
               (let (h1, va) = alloc h (OValue (Value v vf) (Some f)) in hret h1 va))
      | _ \<Rightarrow> hret h value)"

subsection \<open>The methods on objects\<close>

text \<open>
  Each method first prepares a node and then calls a method on it. The preparation is what
  touches the store: it copies \<open>self\<close>, reads the pairs or paths of \<open>self\<close>, appends the new
  source expressions to the list of the copy and binds the copy to it. \<open>JSONSet.as_sql\<close>,
  \<open>JSONRemove.as_sql\<close> and \<open>JSONObject.as_postgresql\<close> return the copy.
\<close>

definition h_JSONSet_as_sql_prepare :: "nat \<Rightarrow> heap \<Rightarrow> addr \<Rightarrow> addr hres" where
  "h_JSONSet_as_sql_prepare n h self =
     hbind (h_copy h self) (\<lambda>h1 copy.
       case h_get_source_expressions h1 copy of
         None \<Rightarrow> hraise h1 AttributeError
       | Some new_source_expressions \<Rightarrow>
           (case h_fields_items h1 self of
              None \<Rightarrow> hraise h1 AttributeError
            | Some items \<Rightarrow>
                hbind (h_set_items n h1 self items) (\<lambda>h2 new.
                  hret (h_set_source_expressions (h_extend h2 new_source_expressions new)
                          copy new_source_expressions) copy)))"

definition h_JSONRemove_as_sql_prepare :: "heap \<Rightarrow> addr \<Rightarrow> addr hres" where
  "h_JSONRemove_as_sql_prepare h self =
     hbind (h_copy h self) (\<lambda>h1 copy.
       case h_get_source_expressions h1 copy of
         None \<Rightarrow> hraise h1 AttributeError
       | Some new_source_expressions \<Rightarrow>
           (case h_paths h1 self of
              None \<Rightarrow> hraise h1 AttributeError
            | Some paths \<Rightarrow>
                (let (h2, new) = h_alloc_all h1
                       (map (\<lambda>path. OValue (Lit (PStr (compile_json_path (split path LOOKUP_SEP))))
                                      None) paths)
                 in hret (h_set_source_expressions (h_extend h2 new_source_expressions new)
                            copy new_source_expressions) copy)))"

definition h_JSONObject_as_postgresql_prepare :: "heap \<Rightarrow> addr \<Rightarrow> addr hres" where
  "h_JSONObject_as_postgresql_prepare h self =
     hbind (h_copy h self) (\<lambda>h1 copy.
       case h_get_source_expressions h1 copy of
         None \<Rightarrow> hraise h1 AttributeError
       | Some l \<Rightarrow>
           (case list_items h1 l of
              None \<Rightarrow> hraise h1 AttributeError
            | Some xs \<Rightarrow>
                (let (h2, new) = h_cast_keys h1 (List.enumerate 0 xs);
                     (h3, l') = alloc h2 (OList new)
                 in hret (h_set_source_expressions h3 copy l') copy)))"

text \<open>
  The branch \<open>if rest\<close> of \<open>as_postgresql\<close> and \<open>as_oracle\<close>: the copy is bound to a new dict with
  the first pair (or to the tuple of the first path) and becomes the expression of a new node
  with the other pairs (or paths), on which the method calls itself.
\<close>

definition h_JSONSet_wrap ::
  "heap \<Rightarrow> addr \<Rightarrow> string \<Rightarrow> addr \<Rightarrow> (string \<times> addr) list \<Rightarrow> (bool \<times> addr) hres" where
  "h_JSONSet_wrap h copy key value rest =
     (let (h1, d) = alloc h (ODict [(key, value)]);
          h2 = h_set_fields h1 copy d
      in hbind (h_JSONSet_init h2 copy None (dict rest)) (\<lambda>h3 node. hret h3 (True, node)))"

definition h_JSONRemove_wrap ::
  "heap \<Rightarrow> addr \<Rightarrow> string \<Rightarrow> string list \<Rightarrow> (bool \<times> addr) hres" where
  "h_JSONRemove_wrap h copy path rest =
     hbind (h_JSONRemove_init (h_set_paths h copy [path]) copy rest)
       (\<lambda>h1 node. hret h1 (True, node))"

text \<open>
  The preparation of \<open>as_postgresql\<close> and \<open>as_oracle\<close> returns a flag with the node: \<open>True\<close>
  with the new node of the branch \<open>if rest\<close>, on which the method is to call itself, and \<open>False\<close>
  with the copy, which goes to \<open>Func.as_sql\<close>.
\<close>

definition h_JSONSet_as_postgresql_prepare :: "nat \<Rightarrow> heap \<Rightarrow> addr \<Rightarrow> (bool \<times> addr) hres" where
  "h_JSONSet_as_postgresql_prepare n h self =
     hbind (h_copy h self) (\<lambda>h1 copy.
       case h_fields_items h1 self of
         None \<Rightarrow> hraise h1 AttributeError
       | Some [] \<Rightarrow> hraise h1 IndexError
       | Some ((key, value) # rest) \<Rightarrow>
           if rest \<noteq> []
           then h_JSONSet_wrap h1 copy key value rest
           else (case h_get_source_expressions h1 copy of
                   None \<Rightarrow> hraise h1 AttributeError
                 | Some new_source_expressions \<Rightarrow>
                     (let (h2, pa) = alloc h1 (OValue (Lit (PList (split key LOOKUP_SEP))) None);
                          h3 = h_extend h2 new_source_expressions [pa]
                      in hbind (h_pg_value n h3 self value) (\<lambda>h4 value'.
                           hret (h_set_source_expressions
                                   (h_extend h4 new_source_expressions [value'])
                                   copy new_source_expressions)
                                (False, copy)))))"

definition h_JSONSet_as_oracle_prepare :: "nat \<Rightarrow> heap \<Rightarrow> addr \<Rightarrow> (bool \<times> addr) hres" where
  "h_JSONSet_as_oracle_prepare n h self =
     hbind (h_copy h self) (\<lambda>h1 copy.
       case h_fields_items h1 self of
         None \<Rightarrow> hraise h1 AttributeError
       | Some [] \<Rightarrow> hraise h1 IndexError
       | Some ((key, value) # rest) \<Rightarrow>
           if rest \<noteq> []
           then h_JSONSet_wrap h1 copy key value rest
           else (case h_get_source_expressions h1 copy of
                   None \<Rightarrow> hraise h1 AttributeError
                 | Some new_source_expressions \<Rightarrow>
                     hbind (h_oracle_value n h1 self value) (\<lambda>h2 value'.
                       hret (h_set_source_expressions
                               (h_extend h2 new_source_expressions [value'])
                               copy new_source_expressions)
                            (False, copy))))"

definition h_JSONRemove_as_postgresql_prepare :: "heap \<Rightarrow> addr \<Rightarrow> (bool \<times> addr) hres" where
  "h_JSONRemove_as_postgresql_prepare h self =
     hbind (h_copy h self) (\<lambda>h1 copy.
       case h_paths h1 self of
         None \<Rightarrow> hraise h1 AttributeError
       | Some [] \<Rightarrow> hraise h1 ValueError
       | Some (path # rest) \<Rightarrow>
           if rest \<noteq> []
           then h_JSONRemove_wrap h1 copy path rest
           else (case h_get_source_expressions h1 copy of
                   None \<Rightarrow> hraise h1 AttributeError
                 | Some new_source_expressions \<Rightarrow>
                     (let (h2, pa) = alloc h1 (OValue (Lit (PList (split path LOOKUP_SEP))) None)
                      in hret (h_set_source_expressions
                                 (h_extend h2 new_source_expressions [pa])
                                 copy new_source_expressions)
                              (False, copy))))"

definition h_JSONRemove_as_oracle_prepare :: "heap \<Rightarrow> addr \<Rightarrow> (bool \<times> addr) hres" where
  "h_JSONRemove_as_oracle_prepare h self =
     hbind (h_copy h self) (\<lambda>h1 copy.
       case h_paths h1 self of
         None \<Rightarrow> hraise h1 AttributeError
       | Some [] \<Rightarrow> hraise h1 ValueError
       | Some (path # rest) \<Rightarrow>
           if rest \<noteq> []
           then h_JSONRemove_wrap h1 copy path rest
           else hret h1 (False, copy))"

text \<open>The loop of \<open>Func.as_sql\<close> over the source expressions, threading the store.\<close>

fun h_compile_all ::
  "(heap \<Rightarrow> addr \<Rightarrow> sql hres) \<Rightarrow> heap \<Rightarrow> addr list \<Rightarrow> (string list \<times> param list) hres" where
  "h_compile_all compile1 h [] = hret h ([], [])"
| "h_compile_all compile1 h (arg # args) =
     hbind (compile1 h arg) (\<lambda>h1 (arg_sql, arg_params).
       hbind (h_compile_all compile1 h1 args) (\<lambda>h2 (sql_parts, params).
         hret h2 (arg_sql # sql_parts, arg_params @ params)))"

text \<open>
  The compiler and the methods call each other, also on the nodes that a method has built.
  They are defined together by recursion on fuel: each body calls the methods of the level
  below, given as a record, and at level zero every call is out of fuel.
\<close>

record methods =
  m_compile :: "heap \<Rightarrow> addr \<Rightarrow> sql hres"
  m_Func_as_sql :: "heap \<Rightarrow> addr \<Rightarrow> string option \<Rightarrow> tpart list \<Rightarrow> hjoiner \<Rightarrow> sql hres"
  m_as_sql :: "heap \<Rightarrow> addr \<Rightarrow> tpart list option \<Rightarrow> hjoiner option \<Rightarrow> sql hres"
  m_as_native :: "heap \<Rightarrow> addr \<Rightarrow> string \<Rightarrow> sql hres"
  m_as_postgresql :: "heap \<Rightarrow> addr \<Rightarrow> sql hres"
  m_as_oracle :: "heap \<Rightarrow> addr \<Rightarrow> sql hres"

definition h_compile_body :: "connection \<Rightarrow> methods \<Rightarrow> heap \<Rightarrow> addr \<Rightarrow> sql hres" where
  "h_compile_body c m h node =
     (if vendor c = PostgreSQL \<and> h_has_vendor_impl h node then m_as_postgresql m h node
      else if vendor c = Oracle \<and> h_has_vendor_impl h node then m_as_oracle m h node
      else m_as_sql m h node None None)"

definition h_Func_as_sql_body ::
  "methods \<Rightarrow> heap \<Rightarrow> addr \<Rightarrow> string option \<Rightarrow> tpart list \<Rightarrow> hjoiner \<Rightarrow> sql hres" where
  "h_Func_as_sql_body m h self function template arg_joiner =
     (case h_get_source_expressions h self of
        None \<Rightarrow> hraise h AttributeError
      | Some l \<Rightarrow>
          (case list_items h l of
             None \<Rightarrow> hraise h AttributeError
           | Some source_expressions \<Rightarrow>
               hbind (h_compile_all (m_compile m) h source_expressions) (\<lambda>h1 (sql_parts, params).
                 case h_arg_joiner_join h1 arg_joiner sql_parts of
                   Inl e \<Rightarrow> hraise h1 e
                 | Inr expressions \<Rightarrow> hret h1 (render template function expressions, params))))"

definition h_as_sql_body ::
  "connection \<Rightarrow> nat \<Rightarrow> methods \<Rightarrow> heap \<Rightarrow> addr \<Rightarrow> tpart list option \<Rightarrow> hjoiner option
     \<Rightarrow> sql hres" where
  "h_as_sql_body c n m h self template arg_joiner =
     (case lookup h self of
        Some (OCol name f) \<Rightarrow> hret h ([CHR 0x22] @ name @ [CHR 0x22], [])
      | Some (OValue v f) \<Rightarrow>
          (if v = Lit PNone \<and> f \<noteq> Some JSONField then hret h (''NULL'', [])
           else hret h (''%s'', [Param v f]))
      | Some (OFunc k l outf d p) \<Rightarrow>
          (case k of
             CCast \<Rightarrow>
               (case outf of
                  None \<Rightarrow> hraise h FieldError
                | Some f \<Rightarrow>
                    m_Func_as_sql m h self (Some ''CAST'')
                      [TFunction, TText ''('', TExpressions, TText ('' AS '' @ db_type f @ '')'')]
                      (HJStr '', ''))
           | CToJSONB \<Rightarrow>
               m_Func_as_sql m h self (Some ''TO_JSONB'') default_template (HJStr '', '')
           | CJSONObject \<Rightarrow>
               (if \<not> has_json_object_function (features c) then hraise h NotSupportedError
                else m_Func_as_sql m h self (Some ''JSON_OBJECT'')
                       (case template of None \<Rightarrow> default_template | Some t \<Rightarrow> t)
                       (case arg_joiner of None \<Rightarrow> HJStr '', '' | Some j \<Rightarrow> j))
           | CJSONSet \<Rightarrow>
               (if \<not> supports_partial_json_update (features c) then hraise h NotSupportedError
                else hbind (h_JSONSet_as_sql_prepare n h self) (\<lambda>h1 copy.
                       m_Func_as_sql m h1 copy (Some ''JSON_SET'') default_template
                         (HJStr '', '')))
           | CJSONRemove \<Rightarrow>
               (if \<not> supports_partial_json_update (features c) then hraise h NotSupportedError
                else hbind (h_JSONRemove_as_sql_prepare h self) (\<lambda>h1 copy.
                       m_Func_as_sql m h1 copy (Some ''JSON_REMOVE'') default_template
                         (HJStr '', ''))))
      | _ \<Rightarrow> hraise h AttributeError)"

definition h_as_native_body :: "methods \<Rightarrow> heap \<Rightarrow> addr \<Rightarrow> string \<Rightarrow> sql hres" where
  "h_as_native_body m h self returning =
     (case lookup h self of
        Some (OFunc k l outf d p) \<Rightarrow>
          if k = CJSONObject
          then m_as_sql m h self
                 (Some [TFunction, TText ''('', TExpressions,
                        TText ('' RETURNING '' @ returning @ '')'')])
                 (Some (HJObj self))
          else hraise h AttributeError
      | _ \<Rightarrow> hraise h AttributeError)"

definition h_as_postgresql_body ::
  "connection \<Rightarrow> nat \<Rightarrow> methods \<Rightarrow> heap \<Rightarrow> addr \<Rightarrow> sql hres" where
  "h_as_postgresql_body c n m h self =
     (case lookup h self of
        Some (OFunc k l outf d p) \<Rightarrow>
          (case k of
             CJSONObject \<Rightarrow>
               hbind (h_JSONObject_as_postgresql_prepare h self) (\<lambda>h1 copy.
                 if is_postgresql_16 (features c) then m_as_native m h1 copy ''JSONB''
                 else m_Func_as_sql m h1 copy (Some ''JSONB_BUILD_OBJECT'') default_template
                        (HJStr '', ''))
           | CJSONSet \<Rightarrow>
               hbind (h_JSONSet_as_postgresql_prepare n h self) (\<lambda>h1 (recurse, node).
                 if recurse then m_as_postgresql m h1 node
                 else m_Func_as_sql m h1 node (Some ''JSONB_SET'') default_template
                        (HJStr '', ''))
           | CJSONRemove \<Rightarrow>
               hbind (h_JSONRemove_as_postgresql_prepare h self) (\<lambda>h1 (recurse, node).
                 if recurse then m_as_postgresql m h1 node
                 else m_Func_as_sql m h1 node None [TExpressions] (HJStr ''#- ''))
           | _ \<Rightarrow> hraise h AttributeError)
      | _ \<Rightarrow> hraise h AttributeError)"

definition h_as_oracle_body ::
  "connection \<Rightarrow> nat \<Rightarrow> methods \<Rightarrow> heap \<Rightarrow> addr \<Rightarrow> sql hres" where
  "h_as_oracle_body c n m h self =
     (case lookup h self of
        Some (OFunc k l outf d p) \<Rightarrow>
          (case k of
             CJSONObject \<Rightarrow> m_as_native m h self ''CLOB''
           | CJSONSet \<Rightarrow>
               (if \<not> supports_partial_json_update (features c) then hraise h NotSupportedError
                else hbind (h_JSONSet_as_oracle_prepare n h self) (\<lambda>h1 (recurse, node).
                       if recurse then m_as_oracle m h1 node
                       else m_Func_as_sql m h1 node (Some ''JSON_TRANSFORM'') default_template
                              (HJObj self)))
           | CJSONRemove \<Rightarrow>
               (if \<not> supports_partial_json_update (features c) then hraise h NotSupportedError
                else hbind (h_JSONRemove_as_oracle_prepare h self) (\<lambda>h1 (recurse, node).
                       if recurse then m_as_oracle m h1 node
                       else m_Func_as_sql m h1 node (Some ''JSON_TRANSFORM'') default_template
                              (HJObj self)))
           | _ \<Rightarrow> hraise h AttributeError)
      | _ \<Rightarrow> hraise h AttributeError)"

primrec h_methods :: "nat \<Rightarrow> connection \<Rightarrow> methods" where
  "h_methods 0 c =
     \<lparr>m_compile = (\<lambda>h node. None),
      m_Func_as_sql = (\<lambda>h self function template arg_joiner. None),
      m_as_sql = (\<lambda>h self template arg_joiner. None),
      m_as_native = (\<lambda>h self returning. None),
      m_as_postgresql = (\<lambda>h self. None),
      m_as_oracle = (\<lambda>h self. None)\<rparr>"
| "h_methods (Suc n) c =
     (let m = h_methods n c
      in \<lparr>m_compile = h_compile_body c m,
          m_Func_as_sql = h_Func_as_sql_body m,
          m_as_sql = h_as_sql_body c n m,
          m_as_native = h_as_native_body m,
          m_as_postgresql = h_as_postgresql_body c n m,
          m_as_oracle = h_as_oracle_body c n m\<rparr>)"

text \<open>The compiler and the methods with fuel \<open>n\<close>.\<close>

definition h_compile :: "nat \<Rightarrow> connection \<Rightarrow> heap \<Rightarrow> addr \<Rightarrow> sql hres" where
  "h_compile n c = m_compile (h_methods n c)"

definition h_as_sql ::
  "nat \<Rightarrow> connection \<Rightarrow> heap \<Rightarrow> addr \<Rightarrow> tpart list option \<Rightarrow> hjoiner option \<Rightarrow> sql hres" where
  "h_as_sql n c = m_as_sql (h_methods n c)"

definition h_as_postgresql :: "nat \<Rightarrow> connection \<Rightarrow> heap \<Rightarrow> addr \<Rightarrow> sql hres" where
  "h_as_postgresql n c = m_as_postgresql (h_methods n c)"

definition h_as_oracle :: "nat \<Rightarrow> connection \<Rightarrow> heap \<Rightarrow> addr \<Rightarrow> sql hres" where
  "h_as_oracle n c = m_as_oracle (h_methods n c)"

subsection \<open>Objects and the expressions they stand for\<close>

text \<open>
  \<open>repr h a e\<close>: in the store \<open>h\<close> the object at address \<open>a\<close> stands for the expression \<open>e\<close>,
  its source expressions, update values and paths item by item.
\<close>

inductive repr :: "heap \<Rightarrow> addr \<Rightarrow> expr \<Rightarrow> bool" where
  Lit: "lookup h a = Some (OLit v) \<Longrightarrow> repr h a (Lit v)"
| F: "lookup h a = Some (OF name) \<Longrightarrow> repr h a (F name)"
| Col: "lookup h a = Some (OCol name f) \<Longrightarrow> repr h a (Col name f)"
| Value: "lookup h a = Some (OValue v f) \<Longrightarrow> repr h a (Value v f)"
| Cast: "lookup h a = Some (OFunc CCast l (Some f) d p) \<Longrightarrow> lookup h l = Some (OList [x]) \<Longrightarrow>
         repr h x e \<Longrightarrow> repr h a (Cast e f)"
| ToJSONB: "lookup h a = Some (OFunc CToJSONB l outf d p) \<Longrightarrow> lookup h l = Some (OList [x]) \<Longrightarrow>
         repr h x e \<Longrightarrow> repr h a (ToJSONB e outf)"
| JSONObject: "lookup h a = Some (OFunc CJSONObject l outf d p) \<Longrightarrow>
         lookup h l = Some (OList xs) \<Longrightarrow> list_all2 (repr h) xs srcs \<Longrightarrow>
         repr h a (JSONObject srcs)"
| JSONSet: "lookup h a = Some (OFunc CJSONSet l outf (Some d) p) \<Longrightarrow>
         lookup h l = Some (OList xs) \<Longrightarrow> list_all2 (repr h) xs srcs \<Longrightarrow>
         lookup h d = Some (ODict kvs) \<Longrightarrow>
         list_all2 (\<lambda>kv fe. fst kv = fst fe \<and> repr h (snd kv) (snd fe)) kvs flds \<Longrightarrow>
         repr h a (JSONSet srcs outf flds)"
| JSONRemove: "lookup h a = Some (OFunc CJSONRemove l None d paths) \<Longrightarrow>
         lookup h l = Some (OList xs) \<Longrightarrow> list_all2 (repr h) xs srcs \<Longrightarrow>
         repr h a (JSONRemove srcs paths)"

text \<open>
  \<open>stored g base ws\<close>: the objects \<open>ws\<close> lie in \<open>g\<close> from address \<open>base\<close> on. \<open>srcs_repr\<close>: the
  source expressions of the node at an address stand for the given expressions.
  \<open>refines h r res\<close>: the call \<open>r\<close>, made in the store \<open>h\<close>, ends with the result \<open>res\<close> and
  leaves a store that extends \<open>h\<close>. \<open>jrel\<close> relates the joiners of the two levels.
\<close>

definition stored :: "heap \<Rightarrow> nat \<Rightarrow> obj list \<Rightarrow> bool" where
  "stored g base ws = (\<forall>i<length ws. lookup g (base + i) = Some (ws ! i))"

definition srcs_repr :: "heap \<Rightarrow> addr \<Rightarrow> expr list \<Rightarrow> bool" where
  "srcs_repr h a es =
     (\<exists>k l outf d p xs. lookup h a = Some (OFunc k l outf d p) \<and> lookup h l = Some (OList xs)
        \<and> list_all2 (repr h) xs es)"

definition refines :: "heap \<Rightarrow> 'a hres \<Rightarrow> error + 'a \<Rightarrow> bool" where
  "refines h r res = (\<exists>h'. r = Some (h', res) \<and> prefix h h')"

fun jrel :: "heap \<Rightarrow> hjoiner \<Rightarrow> joiner \<Rightarrow> bool" where
  "jrel h (HJStr sep) (JStr sep') = (sep = sep')"
| "jrel h (HJObj a) (JObj e) = repr h a e"
| "jrel h hj j = False"

definition jrel_opt :: "heap \<Rightarrow> hjoiner option \<Rightarrow> joiner option \<Rightarrow> bool" where
  "jrel_opt h hjo jo =
     (case (hjo, jo) of
        (None, None) \<Rightarrow> True
      | (Some hj, Some j) \<Rightarrow> jrel h hj j
      | _ \<Rightarrow> False)"

section \<open>The retry decorator of django.tasks.utils\<close>

text \<open>
  The wrapped function is called with the same arguments at every attempt; what a call does
  may depend on the calls before it, so the function is given as the outcome of its call
  number \<open>n\<close> (counted from zero). A call returns a value or raises; the wrapper tells
  \<open>KeyboardInterrupt\<close> from every other exception.
\<close>

datatype 'e raised = KeyboardInterrupt | BaseException 'e

datatype ('a, 'e) outcome = Returns 'a | Raises "'e raised"

text \<open>
  What a run of the wrapper does: how it ends (a wrapper that falls off the end of the loop
  returns \<open>None\<close>), how often it called the wrapped function, and the delays it slept.
\<close>

record ('a, 'e, 'd) run =
  ending :: "('a option, 'e) outcome"
  call_count :: nat
  slept :: "'d list"

text \<open>
  The loop \<open>for attempt in range(1, retries + 1)\<close> of \<open>inner_wrapper\<close>, from \<open>attempt\<close> on.
  \<open>time.sleep(backoff_delay)\<close> is called inside the \<open>except\<close> handler: when it returns the
  loop goes on to the next attempt, and when it raises, its exception leaves the wrapper and
  no further attempt is made. What the sleep does on a delay is the parameter \<open>sleep\<close>:
  \<open>None\<close> when it returns, the exception when it raises.
\<close>

function retry_loop ::
  "('d \<Rightarrow> 'e raised option) \<Rightarrow> (nat \<Rightarrow> ('a, 'e) outcome) \<Rightarrow> int \<Rightarrow> 'd \<Rightarrow> int \<Rightarrow> nat \<Rightarrow> 'd list
     \<Rightarrow> ('a, 'e, 'd) run" where
  "retry_loop sleep f retries backoff_delay attempt calls sleeps =
     (if retries < attempt
      then \<lparr>ending = Returns None, call_count = calls, slept = sleeps\<rparr>
      else (case f calls of
              Returns v \<Rightarrow> \<lparr>ending = Returns (Some v), call_count = Suc calls, slept = sleeps\<rparr>
            | Raises KeyboardInterrupt \<Rightarrow>
                \<lparr>ending = Raises KeyboardInterrupt, call_count = Suc calls, slept = sleeps\<rparr>
            | Raises (BaseException e) \<Rightarrow>
                if attempt = retries
                then \<lparr>ending = Raises (BaseException e), call_count = Suc calls, slept = sleeps\<rparr>
                else (case sleep backoff_delay of
                        Some x \<Rightarrow> \<lparr>ending = Raises x, call_count = Suc calls, slept = sleeps\<rparr>
                      | None \<Rightarrow>
                          retry_loop sleep f retries backoff_delay (attempt + 1) (Suc calls)
                            (sleeps @ [backoff_delay]))))"
  by pat_completeness auto

termination
  by (relation "measure (\<lambda>(sleep, f, retries, backoff_delay, attempt, calls, sleeps).
                  nat (retries + 1 - attempt))") auto

text \<open>\<open>retry(retries=..., backoff_delay=...)(f)()\<close>.\<close>

definition retry ::
  "('d \<Rightarrow> 'e raised option) \<Rightarrow> int \<Rightarrow> 'd \<Rightarrow> (nat \<Rightarrow> ('a, 'e) outcome) \<Rightarrow> ('a, 'e, 'd) run" where
  "retry sleep retries backoff_delay f = retry_loop sleep f retries backoff_delay 1 0 []"

text \<open>
  \<open>time.sleep\<close> of the Python standard library on a delay in seconds, exceptions written by
  their class names: it returns after a delay that is not negative and raises \<open>ValueError\<close>
  for a negative one.
\<close>

definition time_sleep :: "real \<Rightarrow> string raised option" where
  "time_sleep secs = (if secs < 0 then Some (BaseException ''ValueError'') else None)"

section \<open>Properties\<close>

subsection \<open>Construction\<close>

lemma parse_expression_id: "has_resolve_expression e \<Longrightarrow> parse_expression e = e"
  by (cases e) simp_all

lemma compile_parse_expression: "compile c e = Inr t \<Longrightarrow> parse_expression e = e"
  by (cases e) (simp_all add: compile.simps)

lemma JSONObject_init_length:
  "length (get_source_expressions (JSONObject_init kwargs)) = 2 * length kwargs"
  unfolding JSONObject_init_def by (induction kwargs) auto

lemma JSONObject_init_nth:
  "i < length kwargs \<Longrightarrow>
   get_source_expressions (JSONObject_init kwargs) ! (2 * i) = Value (Lit (PStr (fst (kwargs ! i)))) None
   \<and> get_source_expressions (JSONObject_init kwargs) ! (2 * i + 1)
       = parse_expression (snd (kwargs ! i))"
  unfolding JSONObject_init_def
proof (induction kwargs arbitrary: i)
  case Nil
  then show ?case by simp
next
  case (Cons kv kwargs)
  obtain key v where kv: "kv = (key, v)" by (cases kv)
  show ?case
  proof (cases i)
    case 0
    then show ?thesis using kv by simp
  next
    case (Suc j)
    then show ?thesis using Cons.IH [of j] Cons.prems kv by simp
  qed
qed

lemma every_other_Cons: "every_other (y # xs) = y # every_other (drop 1 xs)"
  by (cases xs) simp_all

lemma length_every_other: "length (every_other xs) = (length xs + 1) div 2"
  by (induction xs rule: every_other.induct) simp_all

lemma length_every_other_drop: "length (every_other (drop 1 xs)) = length xs div 2"
  by (cases xs) (simp_all add: length_every_other)

lemma zip_every_other:
  "even (length args) \<Longrightarrow>
   zip (every_other args) (every_other (drop 1 args))
     = map (\<lambda>i. (args ! (2 * i), args ! (2 * i + 1))) [0..<length args div 2]"
proof (induction args rule: every_other.induct)
  case (1 x y xs)
  have "zip (every_other (x # y # xs)) (every_other (drop 1 (x # y # xs)))
          = (x, y) # zip (every_other xs) (every_other (drop 1 xs))"
    by (simp add: every_other_Cons)
  also have "\<dots> = (x, y) # map (\<lambda>i. (xs ! (2 * i), xs ! (2 * i + 1))) [0..<length xs div 2]"
    using 1 by simp
  also have "\<dots> = map (\<lambda>i. ((x # y # xs) ! (2 * i), (x # y # xs) ! (2 * i + 1)))
                     [0..<length (x # y # xs) div 2]"
    by (simp add: map_upt_Suc del: upt_Suc)
  finally show ?case .
next
  case (2 x)
  then show ?case by simp
next
  case 3
  then show ?case by simp
qed

lemma join_JSONObject_even:
  assumes "even (length args)"
  shows "join (JSONObject srcs) args
    = Inr (str_join '', '' (map (\<lambda>i. ''('' @ args ! (2 * i) @ '') VALUE '' @ args ! (2 * i + 1))
                                [0..<length args div 2]))"
proof -
  have len: "length (every_other args) = length (every_other (drop 1 args))"
    using assms by (simp add: length_every_other length_every_other_drop)
  have "join (JSONObject srcs) args
      = Inr (str_join '', '' (map (\<lambda>(key, value). ''('' @ key @ '') VALUE '' @ value)
                                 (zip (every_other args) (every_other (drop 1 args)))))"
    by (simp only: join.simps zip_strict_def len simp_thms if_True sum.case)
  then show ?thesis
    unfolding zip_every_other [OF assms] by (simp add: comp_def)
qed

lemma join_JSONObject_odd:
  assumes "odd (length args)"
  shows "join (JSONObject srcs) args = Inl ValueError"
proof -
  have "length (every_other args) \<noteq> length (every_other (drop 1 args))"
    using assms by (auto simp: length_every_other length_every_other_drop elim!: oddE)
  then show ?thesis by (simp add: zip_strict_def)
qed


text \<open>
  Claim C7. A \<open>JSONObject\<close> node has twice as many children as the pairs it was built from,
  the key of pair \<open>i\<close> at child \<open>2 i\<close> and its value at child \<open>2 i + 1\<close>: the value itself when
  it is an expression, and wrapped by \<open>Func.__init__\<close> (a string as \<open>F\<close>, any other plain value
  as \<open>Value\<close>) when it is not. \<open>join\<close> pairs the compiled children by position, argument
  \<open>2 i\<close> with argument \<open>2 i + 1\<close>, and raises \<open>ValueError\<close> instead of dropping or padding
  when their number is odd, that is when there is a key without a value.
\<close>

theorem JSONObject_children_paired:
  "length (get_source_expressions (JSONObject_init kwargs)) = 2 * length kwargs
   \<and> (\<forall>i<length kwargs.
         get_source_expressions (JSONObject_init kwargs) ! (2 * i)
           = Value (Lit (PStr (fst (kwargs ! i)))) None
         \<and> get_source_expressions (JSONObject_init kwargs) ! (2 * i + 1)
             = parse_expression (snd (kwargs ! i))
         \<and> (has_resolve_expression (snd (kwargs ! i))
              \<longrightarrow> get_source_expressions (JSONObject_init kwargs) ! (2 * i + 1)
                    = snd (kwargs ! i)))
   \<and> (even (length args) \<longrightarrow>
         join (JSONObject srcs) args
           = Inr (str_join '', '' (map (\<lambda>i. ''('' @ args ! (2 * i) @ '') VALUE '' @ args ! (2 * i + 1))
                                       [0..<length args div 2])))
   \<and> (odd (length args) \<longrightarrow> join (JSONObject srcs) args = Inl ValueError)"
proof -
  have "get_source_expressions (JSONObject_init kwargs) ! (2 * i)
           = Value (Lit (PStr (fst (kwargs ! i)))) None
         \<and> get_source_expressions (JSONObject_init kwargs) ! (2 * i + 1)
             = parse_expression (snd (kwargs ! i))
         \<and> (has_resolve_expression (snd (kwargs ! i))
              \<longrightarrow> get_source_expressions (JSONObject_init kwargs) ! (2 * i + 1)
                    = snd (kwargs ! i))"
    if "i < length kwargs" for i
    using JSONObject_init_nth [OF that] parse_expression_id [of "snd (kwargs ! i)"] by simp
  then show ?thesis
    using JSONObject_init_length [of kwargs] join_JSONObject_even [of args srcs]
      join_JSONObject_odd [of args srcs]
    by blast
qed


theorem JSONObject_children_paired_witness:
  "length (get_source_expressions
      (JSONObject_init [(''name'', Col ''n'' TextField), (''age'', Lit (PInt 30))])) = 4
   \<and> get_source_expressions
        (JSONObject_init [(''name'', Col ''n'' TextField), (''age'', Lit (PInt 30))]) ! 0
       = Value (Lit (PStr ''name'')) None
   \<and> get_source_expressions
        (JSONObject_init [(''name'', Col ''n'' TextField), (''age'', Lit (PInt 30))]) ! 1
       = Col ''n'' TextField
   \<and> get_source_expressions
        (JSONObject_init [(''name'', Col ''n'' TextField), (''age'', Lit (PInt 30))]) ! 2
       = Value (Lit (PStr ''age'')) None
   \<and> get_source_expressions
        (JSONObject_init [(''name'', Col ''n'' TextField), (''age'', Lit (PInt 30))]) ! 3
       = Value (Lit (PInt 30)) None
   \<and> join (JSONObject []) [''k1'', ''v1'', ''k2'', ''v2''] = Inr ''(k1) VALUE v1, (k2) VALUE v2''
   \<and> join (JSONObject []) [''k1'', ''v1'', ''k2''] = Inl ValueError"
proof -
  let ?kw = "[(''name'', Col ''n'' TextField), (''age'', Lit (PInt 30))]"
  note a = JSONObject_children_paired [of ?kw "[''k1'', ''v1'', ''k2'', ''v2'']" "[]"]
  note b = JSONObject_children_paired [of ?kw "[''k1'', ''v1'', ''k2'']" "[]"]
  have a1: "length (get_source_expressions (JSONObject_init ?kw)) = 4"
    using a [THEN conjunct1] by simp
  have a2: "get_source_expressions (JSONObject_init ?kw) ! 0 = Value (Lit (PStr ''name'')) None
         \<and> get_source_expressions (JSONObject_init ?kw) ! 1 = Col ''n'' TextField"
    using a [THEN conjunct2, THEN conjunct1, THEN spec, of 0] by simp
  have a3: "get_source_expressions (JSONObject_init ?kw) ! 2 = Value (Lit (PStr ''age'')) None
         \<and> get_source_expressions (JSONObject_init ?kw) ! 3 = Value (Lit (PInt 30)) None"
    using a [THEN conjunct2, THEN conjunct1, THEN spec, of 1] by simp
  have a4: "join (JSONObject []) [''k1'', ''v1'', ''k2'', ''v2'']
      = Inr ''(k1) VALUE v1, (k2) VALUE v2''"
    using a [THEN conjunct2, THEN conjunct2, THEN conjunct1] by (simp add: upt_rec)
  have b1: "join (JSONObject []) [''k1'', ''v1'', ''k2''] = Inl ValueError"
    using b [THEN conjunct2, THEN conjunct2, THEN conjunct2] by simp
  from a1 a2 a3 a4 b1 show ?thesis by simp
qed


text \<open>
  Claim C8. \<open>JSONSet\<close> with an empty mapping and \<open>JSONRemove\<close> without a path raise
  \<open>TypeError\<close> in the constructor: no node exists that could be compiled.
\<close>

theorem construction_errors:
  "JSONSet_init expression outf [] = Inl TypeError
   \<and> JSONRemove_init expression [] = Inl TypeError"
  by (simp add: JSONSet_init_def JSONRemove_init_def)


text \<open>
  Claim C9. Calling \<open>_get_repr_options\<close> on a \<open>JSONRemove\<close> instance raises \<open>AttributeError\<close>,
  whatever options the base class returns (and when the base class call itself raises it):
  the method reads \<open>self.fields\<close>, and a \<open>JSONRemove\<close> has \<open>paths\<close> but no \<open>fields\<close>.
\<close>

theorem JSONRemove_repr_options_raises:
  "u_get_repr_options (Inr options) (JSONRemove srcs paths) = Inl AttributeError
   \<and> u_get_repr_options (Inl AttributeError) (JSONRemove srcs paths) = Inl AttributeError"
  by (simp add: u_get_repr_options_def)


subsection \<open>Retry\<close>

declare retry_loop.simps [simp del]

lemma retry_loop_skip:
  "sleep d = None \<Longrightarrow> (\<forall>j<m. \<exists>e. f (calls + j) = Raises (BaseException e)) \<Longrightarrow>
   attempt + int m \<le> retries \<Longrightarrow>
   retry_loop sleep f retries d attempt calls sleeps
     = retry_loop sleep f retries d (attempt + int m) (calls + m) (sleeps @ replicate m d)"
proof (induction m arbitrary: attempt calls sleeps)
  case 0
  then show ?case by simp
next
  case (Suc m)
  from Suc.prems(2) obtain e where e: "f calls = Raises (BaseException e)"
    by (metis add.right_neutral zero_less_Suc)
  have rest: "\<forall>j<m. \<exists>e. f (Suc calls + j) = Raises (BaseException e)"
    using Suc.prems(2) by (metis Suc_less_eq add_Suc_right add_Suc)
  have "retry_loop sleep f retries d attempt calls sleeps
          = retry_loop sleep f retries d (attempt + 1) (Suc calls) (sleeps @ [d])"
    using e Suc.prems(1,3) by (subst retry_loop.simps) simp
  also have "\<dots> = retry_loop sleep f retries d (attempt + 1 + int m) (Suc calls + m)
                      ((sleeps @ [d]) @ replicate m d)"
    using Suc.prems(3) by (intro Suc.IH Suc.prems(1) rest) simp
  finally show ?case by (simp add: algebra_simps)
qed

lemma retry_loop_calls:
  "call_count (retry_loop sleep f retries d attempt calls sleeps)
     \<le> calls + nat (retries + 1 - attempt)"
proof (induction sleep f retries d attempt calls sleeps rule: retry_loop.induct)
  case (1 sleep f retries d attempt calls sleeps)
  show ?case
  proof (cases "retries < attempt")
    case True
    then show ?thesis by (subst retry_loop.simps) simp
  next
    case False
    show ?thesis
    proof (cases "f calls")
      case (Returns v)
      then show ?thesis using False by (subst retry_loop.simps) simp
    next
      case (Raises x)
      show ?thesis
      proof (cases x)
        case KeyboardInterrupt
        then show ?thesis using False Raises by (subst retry_loop.simps) simp
      next
        case (BaseException e)
        show ?thesis
        proof (cases "attempt = retries")
          case True
          then show ?thesis using Raises BaseException by (subst retry_loop.simps) simp
        next
          case neq: False
          show ?thesis
          proof (cases "sleep d")
            case (Some y)
            then show ?thesis using False neq Raises BaseException
              by (subst retry_loop.simps) simp
          next
            case None
            have "call_count (retry_loop sleep f retries d (attempt + 1) (Suc calls) (sleeps @ [d]))
                    \<le> Suc calls + nat (retries + 1 - (attempt + 1))"
              using "1.IH" [OF False Raises BaseException neq None] .
            then show ?thesis using False neq Raises BaseException None
              by (subst retry_loop.simps) simp
          qed
        qed
      qed
    qed
  qed
qed


text \<open>
  Claim C10, the claim as stated fails: with \<open>retries = 2\<close> and the delay \<open>-1\<close> a function that
  raises at every call is called once, not twice, and what leaves the wrapper is the
  \<open>ValueError\<close> of \<open>time.sleep\<close>, not the exception of the last attempt.
\<close>

theorem retry_negative_delay_counterexample:
  "retry time_sleep 2 (- 1) (\<lambda>n. Raises (BaseException ''boom'') :: (int, string) outcome)
     = \<lparr>ending = Raises (BaseException ''ValueError''), call_count = 1, slept = []\<rparr>
   \<and> call_count
        (retry time_sleep 2 (- 1) (\<lambda>n. Raises (BaseException ''boom'') :: (int, string) outcome))
       \<noteq> nat 2
   \<and> ending
        (retry time_sleep 2 (- 1) (\<lambda>n. Raises (BaseException ''boom'') :: (int, string) outcome))
       \<noteq> Raises (BaseException ''boom'')"
  by (simp add: retry_def retry_loop.simps time_sleep_def)


text \<open>
  Claim C10, amended. For \<open>retries \<ge> 1\<close> the wrapper calls the wrapped function at most
  \<open>retries\<close> times. When \<open>time.sleep(backoff_delay)\<close> returns: if call \<open>k\<close> (counted from zero,
  \<open>k < retries\<close>) returns after the calls before it raised exceptions other than
  \<open>KeyboardInterrupt\<close>, the wrapper returns that value after \<open>k + 1\<close> calls; if every call raises
  such an exception, the function is called exactly \<open>retries\<close> times and the exception of the
  last call propagates; a \<open>KeyboardInterrupt\<close> at call \<open>k\<close> propagates at once, after \<open>k + 1\<close>
  calls. When \<open>time.sleep(backoff_delay)\<close> raises and the first call fails with attempts left,
  the exception of the sleep propagates after that one call.
\<close>

theorem retry_attempts:
  "1 \<le> retries \<Longrightarrow>
   call_count (retry sleep retries d f) \<le> nat retries
   \<and> (sleep d = None \<longrightarrow>
        (\<forall>k v. k < nat retries \<and> (\<forall>j<k. \<exists>e. f j = Raises (BaseException e)) \<and> f k = Returns v
           \<longrightarrow> retry sleep retries d f
               = \<lparr>ending = Returns (Some v), call_count = Suc k, slept = replicate k d\<rparr>)
        \<and> (\<forall>e. (\<forall>j<nat retries. \<exists>e'. f j = Raises (BaseException e'))
               \<and> f (nat retries - 1) = Raises (BaseException e)
           \<longrightarrow> retry sleep retries d f
               = \<lparr>ending = Raises (BaseException e), call_count = nat retries,
                  slept = replicate (nat retries - 1) d\<rparr>)
        \<and> (\<forall>k. k < nat retries \<and> (\<forall>j<k. \<exists>e. f j = Raises (BaseException e))
               \<and> f k = Raises KeyboardInterrupt
           \<longrightarrow> retry sleep retries d f
               = \<lparr>ending = Raises KeyboardInterrupt, call_count = Suc k, slept = replicate k d\<rparr>))
   \<and> (\<forall>x e. sleep d = Some x \<and> 2 \<le> retries \<and> f 0 = Raises (BaseException e)
        \<longrightarrow> retry sleep retries d f = \<lparr>ending = Raises x, call_count = 1, slept = []\<rparr>)"
proof (intro conjI allI impI)
  assume r: "1 \<le> retries"
  show "call_count (retry sleep retries d f) \<le> nat retries"
    using retry_loop_calls [of sleep f retries d 1 0 "[]"] by (simp add: retry_def)
next
  fix k v
  assume r: "1 \<le> retries" and s: "sleep d = None"
    and h: "k < nat retries \<and> (\<forall>j<k. \<exists>e. f j = Raises (BaseException e)) \<and> f k = Returns v"
  from h have le: "1 + int k \<le> retries" by linarith
  have "retry sleep retries d f = retry_loop sleep f retries d (1 + int k) k (replicate k d)"
    using h retry_loop_skip [of sleep d k f 0 1 retries "[]", OF s _ le] by (simp add: retry_def)
  also have "\<dots> = \<lparr>ending = Returns (Some v), call_count = Suc k, slept = replicate k d\<rparr>"
    using h le by (subst retry_loop.simps) simp
  finally show "retry sleep retries d f
      = \<lparr>ending = Returns (Some v), call_count = Suc k, slept = replicate k d\<rparr>" .
next
  fix e
  assume r: "1 \<le> retries" and s: "sleep d = None"
    and h: "(\<forall>j<nat retries. \<exists>e'. f j = Raises (BaseException e'))
            \<and> f (nat retries - 1) = Raises (BaseException e)"
  let ?k = "nat retries - 1"
  from r have le: "1 + int ?k \<le> retries" by linarith
  have "retry sleep retries d f = retry_loop sleep f retries d (1 + int ?k) ?k (replicate ?k d)"
    using h retry_loop_skip [of sleep d ?k f 0 1 retries "[]", OF s _ le] by (simp add: retry_def)
  also have "\<dots> = \<lparr>ending = Raises (BaseException e), call_count = Suc ?k, slept = replicate ?k d\<rparr>"
    using h le by (subst retry_loop.simps) simp
  finally show "retry sleep retries d f
      = \<lparr>ending = Raises (BaseException e), call_count = nat retries,
         slept = replicate (nat retries - 1) d\<rparr>"
    using r by simp
next
  fix k
  assume r: "1 \<le> retries" and s: "sleep d = None"
    and h: "k < nat retries \<and> (\<forall>j<k. \<exists>e. f j = Raises (BaseException e))
            \<and> f k = Raises KeyboardInterrupt"
  from h have le: "1 + int k \<le> retries" by linarith
  have "retry sleep retries d f = retry_loop sleep f retries d (1 + int k) k (replicate k d)"
    using h retry_loop_skip [of sleep d k f 0 1 retries "[]", OF s _ le] by (simp add: retry_def)
  also have "\<dots> = \<lparr>ending = Raises KeyboardInterrupt, call_count = Suc k, slept = replicate k d\<rparr>"
    using h le by (subst retry_loop.simps) simp
  finally show "retry sleep retries d f
      = \<lparr>ending = Raises KeyboardInterrupt, call_count = Suc k, slept = replicate k d\<rparr>" .
next
  fix x e
  assume r: "1 \<le> retries"
    and h: "sleep d = Some x \<and> 2 \<le> retries \<and> f 0 = Raises (BaseException e)"
  then show "retry sleep retries d f = \<lparr>ending = Raises x, call_count = 1, slept = []\<rparr>"
    unfolding retry_def by (subst retry_loop.simps) simp
qed

theorem retry_attempts_witness:
  "(1::int) \<le> 3
   \<and> retry time_sleep 3 (1 / 10) (\<lambda>n. if n < 2 then Raises (BaseException ''boom'') else Returns (7::int))
       = \<lparr>ending = Returns (Some 7), call_count = 3, slept = [1 / 10, 1 / 10]\<rparr>
   \<and> retry time_sleep 3 (1 / 10) (\<lambda>n. Raises (BaseException ''boom'') :: (int, string) outcome)
       = \<lparr>ending = Raises (BaseException ''boom''), call_count = 3, slept = [1 / 10, 1 / 10]\<rparr>
   \<and> retry time_sleep 3 (1 / 10)
         (\<lambda>n. if n < 1 then Raises (BaseException ''boom'')
               else (Raises KeyboardInterrupt :: (int, string) outcome))
       = \<lparr>ending = Raises KeyboardInterrupt, call_count = 2, slept = [1 / 10]\<rparr>
   \<and> retry time_sleep 3 (- 5) (\<lambda>n. Raises (BaseException ''boom'') :: (int, string) outcome)
       = \<lparr>ending = Raises (BaseException ''ValueError''), call_count = 1, slept = []\<rparr>"
proof -
  have base: "(1::int) \<le> 3" by simp
  have s0: "time_sleep (1 / 10) = None" by (simp add: time_sleep_def)
  let ?f = "\<lambda>n::nat. if n < 2 then Raises (BaseException ''boom'')
                      else (Returns (7::int) :: (int, string) outcome)"
  let ?g = "\<lambda>n::nat. Raises (BaseException ''boom'') :: (int, string) outcome"
  let ?h = "\<lambda>n::nat. if n < 1 then Raises (BaseException ''boom'')
               else (Raises KeyboardInterrupt :: (int, string) outcome)"
  have a: "retry time_sleep 3 (1 / 10) ?f = \<lparr>ending = Returns (Some 7), call_count = 3, slept = [1 / 10, 1 / 10]\<rparr>"
    using retry_attempts [OF base, of time_sleep "1 / 10" ?f, THEN conjunct2, THEN conjunct1, THEN mp,
        OF s0, THEN conjunct1, THEN spec, THEN spec, of 2 7]
    by (simp add: numeral_2_eq_2)
  have b: "retry time_sleep 3 (1 / 10) ?g
       = \<lparr>ending = Raises (BaseException ''boom''), call_count = 3, slept = [1 / 10, 1 / 10]\<rparr>"
    using retry_attempts [OF base, of time_sleep "1 / 10" ?g, THEN conjunct2, THEN conjunct1, THEN mp,
        OF s0, THEN conjunct2, THEN conjunct1, THEN spec, of "''boom''"]
    by (simp add: numeral_2_eq_2 numeral_3_eq_3)
  have c: "retry time_sleep 3 (1 / 10) ?h
       = \<lparr>ending = Raises KeyboardInterrupt, call_count = 2, slept = [1 / 10]\<rparr>"
    using retry_attempts [OF base, of time_sleep "1 / 10" ?h, THEN conjunct2, THEN conjunct1, THEN mp,
        OF s0, THEN conjunct2, THEN conjunct2, THEN spec, of 1]
    by simp
  have d: "retry time_sleep 3 (- 5) ?g
       = \<lparr>ending = Raises (BaseException ''ValueError''), call_count = 1, slept = []\<rparr>"
    using retry_attempts [OF base, of time_sleep "- 5" ?g, THEN conjunct2, THEN conjunct2,
        THEN spec, THEN spec, of "BaseException ''ValueError''" "''boom''"]
    by (simp add: time_sleep_def)
  from base a b c d show ?thesis by blast
qed

subsection \<open>Capability flags\<close>

text \<open>
  Claim C1, the claim as stated fails: on a PostgreSQL connection whose capability flags are
  all false, \<open>JSONSet\<close>, \<open>JSONRemove\<close> and \<open>JSONObject\<close> compile to SQL text. The PostgreSQL
  methods of \<open>JSONSet\<close> and \<open>JSONRemove\<close> never read \<open>supports_partial_json_update\<close>, and
  \<open>JSONObject.as_postgresql\<close> reads \<open>has_json_object_function\<close> only on the PostgreSQL 16 branch.
\<close>

theorem postgresql_paths_skip_flag_counterexample:
  "\<not> supports_partial_json_update
        (features \<lparr>vendor = PostgreSQL,
                   features = \<lparr>has_json_object_function = False,
                               supports_partial_json_update = False,
                               is_postgresql_16 = False\<rparr>\<rparr>)
   \<and> compile \<lparr>vendor = PostgreSQL,
               features = \<lparr>has_json_object_function = False,
                           supports_partial_json_update = False,
                           is_postgresql_16 = False\<rparr>\<rparr>
         (JSONSet [Col ''data'' JSONField] None [(''a'', Value (Lit (PInt 1)) (Some JSONField))])
       = Inr (''JSONB_SET('' @ [CHR 0x22] @ ''data'' @ [CHR 0x22] @ '', %s, %s)'',
              [Param (Lit (PList [''a''])) None, Param (Lit (PInt 1)) (Some JSONField)])
   \<and> compile \<lparr>vendor = PostgreSQL,
               features = \<lparr>has_json_object_function = False,
                           supports_partial_json_update = False,
                           is_postgresql_16 = False\<rparr>\<rparr>
         (JSONRemove [Col ''data'' JSONField] [''a''])
       = Inr ([CHR 0x22] @ ''data'' @ [CHR 0x22] @ ''#- %s'', [Param (Lit (PList [''a''])) None])
   \<and> compile \<lparr>vendor = PostgreSQL,
               features = \<lparr>has_json_object_function = False,
                           supports_partial_json_update = False,
                           is_postgresql_16 = False\<rparr>\<rparr>
         (JSONObject_init [(''a'', Value (Lit (PInt 1)) (Some IntegerField))])
       = Inr (''JSONB_BUILD_OBJECT(CAST(%s AS text), %s)'',
              [Param (Lit (PStr ''a'')) None, Param (Lit (PInt 1)) (Some IntegerField)])"
  by code_simp


text \<open>
  Claim C1, amended. With the capability flag false, \<open>as_sql\<close> (the default path, which the
  MySQL-style dialect takes as well) and \<open>as_oracle\<close> of the three builders raise
  \<open>NotSupportedError\<close> and return no SQL text, and so do \<open>JSONObject.as_native\<close> and the
  PostgreSQL 16 branch of \<open>JSONObject.as_postgresql\<close>; hence so does compilation on every
  connection whose vendor is not PostgreSQL.
\<close>

theorem unsupported_flag_raises:
  "(\<not> has_json_object_function (features c) \<longrightarrow>
      as_sql c (JSONObject srcs) template arg_joiner = Inl NotSupportedError
      \<and> as_native c (JSONObject srcs) returning = Inl NotSupportedError
      \<and> as_oracle c (JSONObject srcs) = Inl NotSupportedError
      \<and> (is_postgresql_16 (features c) \<longrightarrow> as_postgresql c (JSONObject srcs) = Inl NotSupportedError)
      \<and> (vendor c \<noteq> PostgreSQL \<longrightarrow> compile c (JSONObject srcs) = Inl NotSupportedError))
   \<and> (\<not> supports_partial_json_update (features c) \<longrightarrow>
      as_sql c (JSONSet srcs f flds) template arg_joiner = Inl NotSupportedError
      \<and> as_oracle c (JSONSet srcs f flds) = Inl NotSupportedError
      \<and> as_sql c (JSONRemove srcs paths) template arg_joiner = Inl NotSupportedError
      \<and> as_oracle c (JSONRemove srcs paths) = Inl NotSupportedError
      \<and> (vendor c \<noteq> PostgreSQL \<longrightarrow>
            compile c (JSONSet srcs f flds) = Inl NotSupportedError
            \<and> compile c (JSONRemove srcs paths) = Inl NotSupportedError))"
  by (simp add: compile.simps)


theorem unsupported_flag_raises_witness:
  "as_sql \<lparr>vendor = MySQL,
            features = \<lparr>has_json_object_function = False,
                        supports_partial_json_update = False,
                        is_postgresql_16 = False\<rparr>\<rparr>
      (JSONObject_init [(''a'', Value (Lit (PInt 1)) (Some IntegerField))]) None None
     = Inl NotSupportedError
   \<and> compile \<lparr>vendor = Oracle,
            features = \<lparr>has_json_object_function = False,
                        supports_partial_json_update = False,
                        is_postgresql_16 = False\<rparr>\<rparr>
      (JSONSet [Col ''data'' JSONField] None [(''a'', Value (Lit (PInt 1)) (Some JSONField))])
     = Inl NotSupportedError
   \<and> as_postgresql \<lparr>vendor = PostgreSQL,
            features = \<lparr>has_json_object_function = False,
                        supports_partial_json_update = False,
                        is_postgresql_16 = True\<rparr>\<rparr>
      (JSONObject_init [(''a'', Value (Lit (PInt 1)) (Some IntegerField))])
     = Inl NotSupportedError
   \<and> compile \<lparr>vendor = SQLite,
            features = \<lparr>has_json_object_function = False,
                        supports_partial_json_update = False,
                        is_postgresql_16 = False\<rparr>\<rparr>
      (JSONRemove [Col ''data'' JSONField] [''a'']) = Inl NotSupportedError"
proof -
  let ?f = "\<lambda>pg. \<lparr>has_json_object_function = False, supports_partial_json_update = False,
                   is_postgresql_16 = pg\<rparr>"
  let ?srcs = "[Value (Lit (PStr ''a'')) None, Value (Lit (PInt 1)) (Some IntegerField)]"
  have obj: "JSONObject_init [(''a'', Value (Lit (PInt 1)) (Some IntegerField))] = JSONObject ?srcs"
    by (simp add: JSONObject_init_def)
  have a: "as_sql \<lparr>vendor = MySQL, features = ?f False\<rparr> (JSONObject ?srcs) None None
             = Inl NotSupportedError"
    using unsupported_flag_raises [where c = "\<lparr>vendor = MySQL, features = ?f False\<rparr>" and srcs = ?srcs
        and template = None and arg_joiner = None]
    by simp
  have b: "compile \<lparr>vendor = Oracle, features = ?f False\<rparr>
             (JSONSet [Col ''data'' JSONField] None [(''a'', Value (Lit (PInt 1)) (Some JSONField))])
             = Inl NotSupportedError"
    using unsupported_flag_raises [where c = "\<lparr>vendor = Oracle, features = ?f False\<rparr>"
        and srcs = "[Col ''data'' JSONField]" and f = None
        and flds = "[(''a'', Value (Lit (PInt 1)) (Some JSONField))]"]
    by simp
  have c: "as_postgresql \<lparr>vendor = PostgreSQL, features = ?f True\<rparr> (JSONObject ?srcs)
             = Inl NotSupportedError"
    using unsupported_flag_raises [where c = "\<lparr>vendor = PostgreSQL, features = ?f True\<rparr>" and srcs = ?srcs]
    by simp
  have d: "compile \<lparr>vendor = SQLite, features = ?f False\<rparr>
             (JSONRemove [Col ''data'' JSONField] [''a'']) = Inl NotSupportedError"
    using unsupported_flag_raises [where c = "\<lparr>vendor = SQLite, features = ?f False\<rparr>"
        and srcs = "[Col ''data'' JSONField]" and paths = "[''a'']"]
    by simp
  from a b c d obj show ?thesis by simp
qed

subsection \<open>Recursive decomposition into single-path calls\<close>

lemma compile_builder_postgresql:
  "vendor c = PostgreSQL \<Longrightarrow> has_vendor_impl node \<Longrightarrow> compile c node = as_postgresql c node"
  by (simp add: compile.simps)

lemma compile_builder_oracle:
  "vendor c = Oracle \<Longrightarrow> has_vendor_impl node \<Longrightarrow> compile c node = as_oracle c node"
  by (simp add: compile.simps)

lemma compile_Value:
  "compile c (Value v f)
     = (if v = Lit PNone \<and> f \<noteq> Some JSONField then Inr (''NULL'', [])
        else Inr (''%s'', [Param v f]))"
  by (simp add: compile.simps)

lemma remove_postgresql_fold:
  assumes pg: "vendor c = PostgreSQL"
  shows "paths \<noteq> [] \<Longrightarrow> compile c target = Inr t \<Longrightarrow>
         as_postgresql c (JSONRemove [target] paths) = Inr (foldl delete_path t paths)"
proof (induction paths arbitrary: target t rule: list_nonempty_induct)
  case (single path)
  obtain ts tp where t: "t = (ts, tp)" by (cases t)
  show ?case using single t by (simp add: compile_Value render_def delete_path_def)
next
  case (cons path paths)
  then obtain r rest where paths: "paths = r # rest" by (cases paths) auto
  let ?inner = "JSONRemove [target] [path]"
  obtain ts tp where t: "t = (ts, tp)" by (cases t)
  have inner: "compile c ?inner = Inr (delete_path t path)"
    using cons.prems t pg
    by (simp add: compile_builder_postgresql compile_Value render_def delete_path_def)
  have "as_postgresql c (JSONRemove [target] (path # paths))
          = as_postgresql c (JSONRemove [?inner] paths)"
    using paths by (simp add: JSONRemove_init_def)
  also have "\<dots> = Inr (foldl delete_path (delete_path t path) paths)"
    by (rule cons.IH [OF inner])
  finally show ?case by simp
qed


text \<open>
  Claim C3. On PostgreSQL a \<open>JSONRemove\<close> node compiles to the delete-path operator applied
  once per path, in the order in which the paths were given: the first path is applied to the
  target itself and each later path to the result before it. When there are two or more
  paths, the node holding the first path is the source expression of the node the method
  recurses on, and it compiles to the innermost application.
\<close>

theorem JSONRemove_postgresql_order:
  "vendor c = PostgreSQL \<Longrightarrow> compile c target = Inr t \<Longrightarrow>
   JSONRemove_init target paths = Inr node \<Longrightarrow>
   as_postgresql c node = Inr (foldl delete_path t paths)
   \<and> (\<forall>path r rest. paths = path # r # rest \<longrightarrow>
         as_postgresql c node = as_postgresql c (JSONRemove [JSONRemove [target] [path]] (r # rest))
         \<and> compile c (JSONRemove [target] [path]) = Inr (delete_path t path))"
proof -
  assume pg: "vendor c = PostgreSQL" and t: "compile c target = Inr t"
    and init: "JSONRemove_init target paths = Inr node"
  from init have ne: "paths \<noteq> []" and node: "node = JSONRemove [target] paths"
    using compile_parse_expression [OF t] by (auto simp: JSONRemove_init_def split: if_splits)
  have a: "as_postgresql c node = Inr (foldl delete_path t paths)"
    unfolding node by (rule remove_postgresql_fold [OF pg ne t])
  have b: "compile c (JSONRemove [target] [path]) = Inr (delete_path t path)" for path
    using remove_postgresql_fold [OF pg _ t, of "[path]"] pg
    by (simp add: compile_builder_postgresql)
  have c: "paths = path # r # rest \<Longrightarrow>
         as_postgresql c node = as_postgresql c (JSONRemove [JSONRemove [target] [path]] (r # rest))"
    for path r rest
    unfolding node by (simp add: JSONRemove_init_def)
  from a b c show ?thesis by blast
qed


theorem JSONRemove_postgresql_order_witness:
  "as_postgresql \<lparr>vendor = PostgreSQL,
        features = \<lparr>has_json_object_function = True, supports_partial_json_update = True,
                    is_postgresql_16 = True\<rparr>\<rparr>
      (JSONRemove [Col ''data'' JSONField] [''a__b'', ''c''])
    = Inr ([CHR 0x22] @ ''data'' @ [CHR 0x22] @ ''#- %s#- %s'',
           [Param (Lit (PList [''a'', ''b''])) None, Param (Lit (PList [''c''])) None])"
proof -
  let ?c = "\<lparr>vendor = PostgreSQL,
        features = \<lparr>has_json_object_function = True, supports_partial_json_update = True,
                    is_postgresql_16 = True\<rparr>\<rparr>"
  have 1: "vendor ?c = PostgreSQL" by simp
  have 2: "compile ?c (Col ''data'' JSONField) = Inr ([CHR 0x22] @ ''data'' @ [CHR 0x22], [])"
    by (simp add: compile.simps)
  have 3: "JSONRemove_init (Col ''data'' JSONField) [''a__b'', ''c'']
             = Inr (JSONRemove [Col ''data'' JSONField] [''a__b'', ''c''])"
    by (simp add: JSONRemove_init_def)
  have 4: "split ''a__b'' LOOKUP_SEP = [''a'', ''b'']" "split ''c'' LOOKUP_SEP = [''c'']"
    by (simp_all add: split_def LOOKUP_SEP_def)
  from JSONRemove_postgresql_order [OF 1 2 3, THEN conjunct1] show ?thesis
    by (simp add: delete_path_def 4)
qed

lemma update_fresh: "k \<notin> fst ` set al \<Longrightarrow> AList.update k v al = al @ [(k, v)]"
  by (induction al) auto

lemma foldl_update_distinct:
  "distinct (map fst (d @ items)) \<Longrightarrow>
   foldl (\<lambda>d (k, v). AList.update k v d) d items = d @ items"
proof (induction items arbitrary: d)
  case Nil
  then show ?case by simp
next
  case (Cons a items)
  obtain k v where a: "a = (k, v)" by (cases a)
  from Cons.prems a have fresh: "k \<notin> fst ` set d" by auto
  from Cons.prems a have "distinct (map fst ((d @ [(k, v)]) @ items))" by simp
  from Cons.IH [OF this] show ?case using a fresh by (simp add: update_fresh)
qed

lemma dict_distinct: "distinct (map fst items) \<Longrightarrow> dict items = items"
  using foldl_update_distinct [of "[]" items] by (simp add: dict_def)

lemma output_field_JSONSet_flds:
  "output_field (JSONSet srcs f flds) = output_field (JSONSet srcs f flds')"
  by (cases f) simp_all

lemma output_field_JSONSet_nested:
  "output_field (JSONSet [JSONSet srcs f flds] None flds') = output_field (JSONSet srcs f flds'')"
  by (cases f) simp_all

lemma pg_value_cong:
  "output_field s1 = output_field s2 \<Longrightarrow> pg_value s1 v = pg_value s2 v"
  unfolding pg_value_def by (erule subst) (rule refl)

lemma pg_compile_value_cong:
  "output_field s1 = output_field s2 \<Longrightarrow> pg_compile_value c s1 v = pg_compile_value c s2 v"
  by (simp add: pg_compile_value_def pg_value_cong [of s1 s2])

lemma oracle_compile_value_cong:
  "output_field s1 = output_field s2 \<Longrightarrow> oracle_compile_value c s1 v = oracle_compile_value c s2 v"
  unfolding oracle_compile_value_def oracle_value_def by (erule subst) (rule refl)

lemma set_postgresql_single:
  assumes "compile c target = Inr t"
    and "pg_compile_value c (JSONSet [target] f [(key, v)]) v = Inr vs"
  shows "as_postgresql c (JSONSet [target] f [(key, v)]) = Inr (jsonb_set t ((key, v), vs))"
proof -
  obtain ts tp where t: "t = (ts, tp)" by (cases t)
  obtain vt vp where vs: "vs = (vt, vp)" by (cases vs)
  from assms(2) obtain v' where v': "pg_value (JSONSet [target] f [(key, v)]) v = Inr v'"
    and cv: "compile c v' = Inr vs"
    by (auto simp: pg_compile_value_def split: sum.splits)
  show ?thesis
    using assms(1) v' cv t vs
    by (simp add: compile_Value render_def default_template_def jsonb_set_def)
qed

lemma set_postgresql_fold:
  assumes pg: "vendor c = PostgreSQL"
  shows "flds \<noteq> [] \<Longrightarrow> distinct (map fst flds) \<Longrightarrow> compile c target = Inr t \<Longrightarrow>
         map (\<lambda>kv. pg_compile_value c (JSONSet [target] f flds) (snd kv)) flds = map Inr vsqls \<Longrightarrow>
         as_postgresql c (JSONSet [target] f flds) = Inr (foldl jsonb_set t (zip flds vsqls))"
proof (induction flds arbitrary: target f t vsqls rule: list_nonempty_induct)
  case (single kv)
  obtain key v where kv: "kv = (key, v)" by (cases kv)
  from single.prems(3) obtain vs where vsqls: "vsqls = [vs]" by (cases vsqls) auto
  from single.prems(3) kv vsqls
  have "pg_compile_value c (JSONSet [target] f [(key, v)]) v = Inr vs" by simp
  from set_postgresql_single [OF single.prems(2) this] show ?case using kv vsqls by simp
next
  case (cons kv flds)
  obtain key v where kv: "kv = (key, v)" by (cases kv)
  from cons.hyps obtain r rest where flds: "flds = r # rest" by (cases flds) auto
  from cons.prems(3) obtain vs vsqls' where vsqls: "vsqls = vs # vsqls'" by (cases vsqls) auto
  let ?inner = "JSONSet [target] f [(key, v)]"
  have v1: "pg_compile_value c ?inner v = Inr vs"
    using cons.prems(3) kv vsqls
      pg_compile_value_cong [OF output_field_JSONSet_flds [of "[target]" f "[(key, v)]" "kv # flds"]]
    by simp
  have inner: "compile c ?inner = Inr (jsonb_set t ((key, v), vs))"
    using set_postgresql_single [OF cons.prems(2) v1] pg by (simp add: compile_builder_postgresql)
  have rest_vals: "map (\<lambda>kv. pg_compile_value c (JSONSet [?inner] None flds) (snd kv)) flds
                     = map Inr vsqls'"
    using cons.prems(3) vsqls
      pg_compile_value_cong [OF output_field_JSONSet_nested [of "[target]" f "[(key, v)]" flds "kv # flds"]]
    by simp
  from cons.prems(1) have d: "distinct (map fst flds)" by simp
  have "as_postgresql c (JSONSet [target] f (kv # flds)) = as_postgresql c (JSONSet [?inner] None flds)"
    using kv flds d dict_distinct [of "r # rest"] by (simp add: JSONSet_init_def)
  also have "\<dots> = Inr (foldl jsonb_set (jsonb_set t ((key, v), vs)) (zip flds vsqls'))"
    by (rule cons.IH [OF d inner rest_vals])
  finally show ?case using kv vsqls by simp
qed

lemma set_oracle_single:
  assumes "supports_partial_json_update (features c)" and "compile c target = Inr t"
    and "oracle_compile_value c (JSONSet [target] f [(key, v)]) v = Inr vs"
  shows "as_oracle c (JSONSet [target] f [(key, v)]) = Inr (json_transform_set t ((key, v), vs))"
proof -
  obtain ts tp where t: "t = (ts, tp)" by (cases t)
  obtain vt vp where vs: "vs = (vt, vp)" by (cases vs)
  from assms(3) obtain v' where v': "oracle_value (JSONSet [target] f [(key, v)]) v = Inr v'"
    and cv: "compile c v' = Inr vs"
    by (auto simp: oracle_compile_value_def split: sum.splits)
  show ?thesis
    using assms(1,2) v' cv t vs
    by (simp add: render_def default_template_def json_transform_set_def)
qed

lemma set_oracle_fold:
  assumes ora: "vendor c = Oracle" and flag: "supports_partial_json_update (features c)"
  shows "flds \<noteq> [] \<Longrightarrow> distinct (map fst flds) \<Longrightarrow> compile c target = Inr t \<Longrightarrow>
         map (\<lambda>kv. oracle_compile_value c (JSONSet [target] f flds) (snd kv)) flds = map Inr vsqls \<Longrightarrow>
         as_oracle c (JSONSet [target] f flds) = Inr (foldl json_transform_set t (zip flds vsqls))"
proof (induction flds arbitrary: target f t vsqls rule: list_nonempty_induct)
  case (single kv)
  obtain key v where kv: "kv = (key, v)" by (cases kv)
  from single.prems(3) obtain vs where vsqls: "vsqls = [vs]" by (cases vsqls) auto
  from single.prems(3) kv vsqls
  have "oracle_compile_value c (JSONSet [target] f [(key, v)]) v = Inr vs" by simp
  from set_oracle_single [OF flag single.prems(2) this] show ?case using kv vsqls by simp
next
  case (cons kv flds)
  obtain key v where kv: "kv = (key, v)" by (cases kv)
  from cons.hyps obtain r rest where flds: "flds = r # rest" by (cases flds) auto
  from cons.prems(3) obtain vs vsqls' where vsqls: "vsqls = vs # vsqls'" by (cases vsqls) auto
  let ?inner = "JSONSet [target] f [(key, v)]"
  have v1: "oracle_compile_value c ?inner v = Inr vs"
    using cons.prems(3) kv vsqls
      oracle_compile_value_cong [OF output_field_JSONSet_flds [of "[target]" f "[(key, v)]" "kv # flds"]]
    by simp
  have inner: "compile c ?inner = Inr (json_transform_set t ((key, v), vs))"
    using set_oracle_single [OF flag cons.prems(2) v1] ora by (simp add: compile_builder_oracle)
  have rest_vals: "map (\<lambda>kv. oracle_compile_value c (JSONSet [?inner] None flds) (snd kv)) flds
                     = map Inr vsqls'"
    using cons.prems(3) vsqls
      oracle_compile_value_cong [OF output_field_JSONSet_nested [of "[target]" f "[(key, v)]" flds "kv # flds"]]
    by simp
  from cons.prems(1) have d: "distinct (map fst flds)" by simp
  have "as_oracle c (JSONSet [target] f (kv # flds)) = as_oracle c (JSONSet [?inner] None flds)"
    using kv flds d dict_distinct [of "r # rest"] flag by (simp add: JSONSet_init_def)
  also have "\<dots> = Inr (foldl json_transform_set (json_transform_set t ((key, v), vs)) (zip flds vsqls'))"
    by (rule cons.IH [OF d inner rest_vals])
  finally show ?case using kv vsqls by simp
qed

text \<open>
  Claim C2. A \<open>JSONSet\<close> node built with \<open>N \<ge> 1\<close> pairs (distinct keys, as in a dict) whose
  target and coerced values compile, compiles on PostgreSQL to \<open>N\<close> applications of
  \<open>JSONB_SET\<close> and on Oracle to \<open>N\<close> applications of \<open>JSON_TRANSFORM\<close>, one per pair in
  insertion order: the first is applied to the compiled target and every later one takes the
  application before it as its target, which makes \<open>N - 1\<close> levels of nesting.
\<close>

theorem JSONSet_single_path_nesting:
  "JSONSet_init target f flds = Inr node \<Longrightarrow> distinct (map fst flds) \<Longrightarrow>
   compile c target = Inr t \<Longrightarrow>
   (vendor c = PostgreSQL
      \<and> map (\<lambda>kv. pg_compile_value c node (snd kv)) flds = map Inr vsqls
    \<longrightarrow> as_postgresql c node = Inr (foldl jsonb_set t (zip flds vsqls))
        \<and> length (zip flds vsqls) = length flds)
   \<and> (vendor c = Oracle \<and> supports_partial_json_update (features c)
      \<and> map (\<lambda>kv. oracle_compile_value c node (snd kv)) flds = map Inr vsqls
    \<longrightarrow> as_oracle c node = Inr (foldl json_transform_set t (zip flds vsqls))
        \<and> length (zip flds vsqls) = length flds)"
proof -
  assume init: "JSONSet_init target f flds = Inr node" and d: "distinct (map fst flds)"
    and t: "compile c target = Inr t"
  from init have ne: "flds \<noteq> []" and node: "node = JSONSet [target] f flds"
    using compile_parse_expression [OF t] by (auto simp: JSONSet_init_def split: if_splits)
  have len: "length (zip flds vsqls) = length flds" if "map g flds = map Inr vsqls" for g
  proof -
    from that have "length flds = length vsqls" by (metis length_map)
    then show ?thesis by simp
  qed
  show ?thesis
    unfolding node
    using set_postgresql_fold [OF _ ne d t, of f vsqls]
      set_oracle_fold [OF _ _ ne d t, of f vsqls] len
    by blast
qed


theorem JSONSet_single_path_nesting_witness:
  "as_postgresql \<lparr>vendor = PostgreSQL,
        features = \<lparr>has_json_object_function = True, supports_partial_json_update = True,
                    is_postgresql_16 = True\<rparr>\<rparr>
      (JSONSet [Col ''data'' JSONField] None
         [(''a__b'', Value (Lit (PInt 1)) (Some JSONField)), (''c'', Col ''n'' IntegerField)])
    = Inr (''JSONB_SET(JSONB_SET('' @ [CHR 0x22] @ ''data'' @ [CHR 0x22] @ '', %s, %s), %s, TO_JSONB(''
             @ [CHR 0x22] @ ''n'' @ [CHR 0x22] @ ''))'',
           [Param (Lit (PList [''a'', ''b''])) None, Param (Lit (PInt 1)) (Some JSONField),
            Param (Lit (PList [''c''])) None])
   \<and> as_oracle \<lparr>vendor = Oracle,
        features = \<lparr>has_json_object_function = True, supports_partial_json_update = True,
                    is_postgresql_16 = False\<rparr>\<rparr>
      (JSONSet [Col ''data'' JSONField] None
         [(''a__b'', Value (Lit (PInt 1)) (Some JSONField)), (''c'', Col ''n'' IntegerField)])
    = Inr (''JSON_TRANSFORM(JSON_TRANSFORM('' @ [CHR 0x22] @ ''data'' @ [CHR 0x22]
             @ '', SET q'' @ [CHR 0x27] @ uffff @ ''$.'' @ [CHR 0x22] @ ''a'' @ [CHR 0x22] @ ''.''
             @ [CHR 0x22] @ ''b'' @ [CHR 0x22] @ uffff @ [CHR 0x27] @ '' = %s FORMAT JSON), SET q''
             @ [CHR 0x27] @ uffff @ ''$.'' @ [CHR 0x22] @ ''c'' @ [CHR 0x22] @ uffff @ [CHR 0x27]
             @ '' = '' @ [CHR 0x22] @ ''n'' @ [CHR 0x22] @ '')'',
           [Param (Value (Lit (PInt 1)) (Some JSONField)) (Some JSONField)])"
proof -
  let ?pg = "\<lparr>vendor = PostgreSQL,
        features = \<lparr>has_json_object_function = True, supports_partial_json_update = True,
                    is_postgresql_16 = True\<rparr>\<rparr>"
  let ?ora = "\<lparr>vendor = Oracle,
        features = \<lparr>has_json_object_function = True, supports_partial_json_update = True,
                    is_postgresql_16 = False\<rparr>\<rparr>"
  let ?flds = "[(''a__b'', Value (Lit (PInt 1)) (Some JSONField)), (''c'', Col ''n'' IntegerField)]"
  let ?node = "JSONSet [Col ''data'' JSONField] None ?flds"
  let ?t = "([CHR 0x22] @ ''data'' @ [CHR 0x22], [])"
  have init: "JSONSet_init (Col ''data'' JSONField) None ?flds = Inr ?node"
    by (simp add: JSONSet_init_def)
  have d: "distinct (map fst ?flds)" by simp
  have tp: "compile ?pg (Col ''data'' JSONField) = Inr ?t" by (simp add: compile.simps)
  have to: "compile ?ora (Col ''data'' JSONField) = Inr ?t" by (simp add: compile.simps)
  have sp: "split ''a__b'' LOOKUP_SEP = [''a'', ''b'']" "split ''c'' LOOKUP_SEP = [''c'']"
    by (simp_all add: split_def LOOKUP_SEP_def)
  have vp: "map (\<lambda>kv. pg_compile_value ?pg ?node (snd kv)) ?flds
              = map Inr [(''%s'', [Param (Lit (PInt 1)) (Some JSONField)]),
                         (''TO_JSONB('' @ [CHR 0x22] @ ''n'' @ [CHR 0x22] @ '')'', [])]"
    by (simp add: pg_compile_value_def pg_value_def compile.simps render_def default_template_def)
  have vo: "map (\<lambda>kv. oracle_compile_value ?ora ?node (snd kv)) ?flds
              = map Inr [(''%s'', [Param (Value (Lit (PInt 1)) (Some JSONField)) (Some JSONField)]),
                         ([CHR 0x22] @ ''n'' @ [CHR 0x22], [])]"
    by (simp add: oracle_compile_value_def oracle_value_def compile.simps)
  have a: "as_postgresql ?pg ?node = Inr (foldl jsonb_set ?t (zip ?flds
              [(''%s'', [Param (Lit (PInt 1)) (Some JSONField)]),
               (''TO_JSONB('' @ [CHR 0x22] @ ''n'' @ [CHR 0x22] @ '')'', [])]))"
    by (rule JSONSet_single_path_nesting [OF init d tp, THEN conjunct1, THEN mp,
          OF conjI [OF _ vp], THEN conjunct1]) simp
  have b: "as_oracle ?ora ?node = Inr (foldl json_transform_set ?t (zip ?flds
              [(''%s'', [Param (Value (Lit (PInt 1)) (Some JSONField)) (Some JSONField)]),
               ([CHR 0x22] @ ''n'' @ [CHR 0x22], [])]))"
    by (rule JSONSet_single_path_nesting [OF init d to, THEN conjunct2, THEN mp,
          OF conjI [OF _ conjI [OF _ vo]], THEN conjunct1]) simp_all
  have cj: "compile_json_path [''a'', ''b''] = ''$.'' @ [CHR 0x22] @ ''a'' @ [CHR 0x22] @ ''.''
             @ [CHR 0x22] @ ''b'' @ [CHR 0x22]"
    "compile_json_path [''c''] = ''$.'' @ [CHR 0x22] @ ''c'' @ [CHR 0x22]"
    by (simp_all add: compile_json_path_def is_index_def)
  from a b show ?thesis
    by (simp add: jsonb_set_def json_transform_set_def sp cj)
qed

subsection \<open>Rendering of JSONObject\<close>

lemma compile_all_length:
  "compile_all c xs = Inr (parts, params) \<Longrightarrow> length parts = length xs"
proof (induction xs arbitrary: parts params)
  case Nil
  then show ?case by simp
next
  case (Cons x xs)
  from Cons.prems obtain a ap ps pp where "compile_all c xs = Inr (ps, pp)" and "parts = a # ps"
    by (auto split: sum.splits prod.splits)
  with Cons.IH show ?case by simp
qed


lemma length_cast_keys: "length (cast_keys xs) = length xs"
  by (simp add: cast_keys_def)

lemma as_native_JSONObject:
  assumes flag: "has_json_object_function (features c)"
    and ca: "compile_all c srcs = Inr (parts, params)" and ev: "even (length srcs)"
  shows "as_native c (JSONObject srcs) returning = Inr (json_object_native parts returning, params)"
proof -
  from compile_all_length [OF ca] ev have "even (length parts)" by simp
  from join_JSONObject_even [OF this, of srcs] flag ca show ?thesis
    by (simp add: render_def json_object_native_def del: join.simps)
qed


text \<open>
  Claim C4, the claim as stated fails: on the default dialect the mapping
  \<open>{"name": Value("John"), "age": 30}\<close> compiles to \<open>JSON_OBJECT(%s, %s, %s, %s)\<close>, keys and
  values as a flat comma-separated argument list, not to pairs joined by the \<open>VALUE\<close> keyword.
\<close>

theorem JSONObject_default_counterexample:
  "compile \<lparr>vendor = SQLite,
        features = \<lparr>has_json_object_function = True, supports_partial_json_update = True,
                    is_postgresql_16 = False\<rparr>\<rparr>
      (JSONObject_init [(''name'', Value (Lit (PStr ''John'')) None), (''age'', Lit (PInt 30))])
    = Inr (''JSON_OBJECT(%s, %s, %s, %s)'',
           [Param (Lit (PStr ''name'')) None, Param (Lit (PStr ''John'')) None,
            Param (Lit (PStr ''age'')) None, Param (Lit (PInt 30)) None])
   \<and> compile \<lparr>vendor = SQLite,
        features = \<lparr>has_json_object_function = True, supports_partial_json_update = True,
                    is_postgresql_16 = False\<rparr>\<rparr>
      (JSONObject_init [(''name'', Value (Lit (PStr ''John'')) None), (''age'', Lit (PInt 30))])
    \<noteq> Inr (''JSON_OBJECT((%s) VALUE %s, (%s) VALUE %s)'',
           [Param (Lit (PStr ''name'')) None, Param (Lit (PStr ''John'')) None,
            Param (Lit (PStr ''age'')) None, Param (Lit (PInt 30)) None])"
  by code_simp


text \<open>
  Claim C4, amended. With the capability flag set and the children compiling, \<open>JSONObject\<close>
  compiles on the default dialect (a vendor without a method of its own) to a \<open>JSON_OBJECT\<close>
  call whose arguments are the compiled keys and values in alternation, separated by a comma
  and a space, twice as many as there are pairs. The rendering of each pair as the
  parenthesised key, the \<open>VALUE\<close> keyword and the value is what \<open>as_native\<close> produces, with a
  \<open>RETURNING\<close> clause, and it is what the node compiles to on Oracle (\<open>RETURNING CLOB\<close>) and on
  PostgreSQL 16 (\<open>RETURNING JSONB\<close>, every key cast to text first).
\<close>

theorem JSONObject_default_rendering:
  "has_json_object_function (features c) \<Longrightarrow>
   (vendor c \<noteq> PostgreSQL \<and> vendor c \<noteq> Oracle
      \<and> compile_all c (get_source_expressions (JSONObject_init kwargs)) = Inr (parts, params)
    \<longrightarrow> compile c (JSONObject_init kwargs)
          = Inr (''JSON_OBJECT('' @ str_join '', '' parts @ '')'', params)
        \<and> length parts = 2 * length kwargs)
   \<and> (compile_all c (get_source_expressions (JSONObject_init kwargs)) = Inr (parts, params)
    \<longrightarrow> as_native c (JSONObject_init kwargs) returning
          = Inr (json_object_native parts returning, params)
        \<and> length parts div 2 = length kwargs)
   \<and> (vendor c = Oracle
      \<and> compile_all c (get_source_expressions (JSONObject_init kwargs)) = Inr (parts, params)
    \<longrightarrow> compile c (JSONObject_init kwargs) = Inr (json_object_native parts ''CLOB'', params))
   \<and> (vendor c = PostgreSQL \<and> is_postgresql_16 (features c)
      \<and> compile_all c (cast_keys (get_source_expressions (JSONObject_init kwargs)))
          = Inr (parts, params)
    \<longrightarrow> compile c (JSONObject_init kwargs) = Inr (json_object_native parts ''JSONB'', params)
        \<and> length parts div 2 = length kwargs)"
proof -
  assume flag: "has_json_object_function (features c)"
  obtain srcs where node: "JSONObject_init kwargs = JSONObject srcs"
    by (simp add: JSONObject_init_def)
  have len: "length srcs = 2 * length kwargs"
    using JSONObject_init_length [of kwargs] node by simp
  then have ev: "even (length srcs)" by simp
  have a: "compile c (JSONObject_init kwargs)
             = Inr (''JSON_OBJECT('' @ str_join '', '' parts @ '')'', params)
           \<and> length parts = 2 * length kwargs"
    if "vendor c \<noteq> PostgreSQL \<and> vendor c \<noteq> Oracle \<and> compile_all c srcs = Inr (parts, params)"
    using that flag len compile_all_length [of c srcs parts params]
    by (simp add: node compile.simps render_def default_template_def)
  have b: "as_native c (JSONObject_init kwargs) returning
             = Inr (json_object_native parts returning, params)
           \<and> length parts div 2 = length kwargs"
    if ca: "compile_all c srcs = Inr (parts, params)"
    using as_native_JSONObject [OF flag ca ev, of returning] compile_all_length [OF ca] len
    by (simp add: node)
  have o: "compile c (JSONObject_init kwargs) = Inr (json_object_native parts ''CLOB'', params)"
    if h: "vendor c = Oracle \<and> compile_all c srcs = Inr (parts, params)"
  proof -
    from h have "compile c (JSONObject srcs) = as_native c (JSONObject srcs) ''CLOB''"
      by (simp add: compile_builder_oracle)
    with as_native_JSONObject [OF flag conjunct2 [OF h] ev, of "''CLOB''"] show ?thesis
      by (simp add: node)
  qed
  have p: "compile c (JSONObject_init kwargs) = Inr (json_object_native parts ''JSONB'', params)
           \<and> length parts div 2 = length kwargs"
    if h: "vendor c = PostgreSQL \<and> is_postgresql_16 (features c)
           \<and> compile_all c (cast_keys srcs) = Inr (parts, params)"
  proof -
    from h have ca: "compile_all c (cast_keys srcs) = Inr (parts, params)" by simp
    have ev': "even (length (cast_keys srcs))" using ev by (simp add: length_cast_keys)
    from h have "compile c (JSONObject srcs) = as_native c (JSONObject (cast_keys srcs)) ''JSONB''"
      by (simp add: compile_builder_postgresql)
    with as_native_JSONObject [OF flag ca ev', of "''JSONB''"] compile_all_length [OF ca] len
    show ?thesis by (simp add: node length_cast_keys)
  qed
  from a b o p show ?thesis unfolding node get_source_expressions.simps by blast
qed


theorem JSONObject_default_rendering_witness:
  "compile \<lparr>vendor = MySQL,
        features = \<lparr>has_json_object_function = True, supports_partial_json_update = True,
                    is_postgresql_16 = False\<rparr>\<rparr>
      (JSONObject_init [(''name'', Value (Lit (PStr ''John'')) None), (''age'', Lit (PInt 30))])
    = Inr (''JSON_OBJECT(%s, %s, %s, %s)'',
           [Param (Lit (PStr ''name'')) None, Param (Lit (PStr ''John'')) None,
            Param (Lit (PStr ''age'')) None, Param (Lit (PInt 30)) None])
   \<and> as_native \<lparr>vendor = MySQL,
        features = \<lparr>has_json_object_function = True, supports_partial_json_update = True,
                    is_postgresql_16 = False\<rparr>\<rparr>
      (JSONObject_init [(''name'', Value (Lit (PStr ''John'')) None), (''age'', Lit (PInt 30))])
      ''CLOB''
    = Inr (''JSON_OBJECT((%s) VALUE %s, (%s) VALUE %s RETURNING CLOB)'',
           [Param (Lit (PStr ''name'')) None, Param (Lit (PStr ''John'')) None,
            Param (Lit (PStr ''age'')) None, Param (Lit (PInt 30)) None])
   \<and> compile \<lparr>vendor = Oracle,
        features = \<lparr>has_json_object_function = True, supports_partial_json_update = True,
                    is_postgresql_16 = False\<rparr>\<rparr>
      (JSONObject_init [(''name'', Value (Lit (PStr ''John'')) None), (''age'', Lit (PInt 30))])
    = Inr (''JSON_OBJECT((%s) VALUE %s, (%s) VALUE %s RETURNING CLOB)'',
           [Param (Lit (PStr ''name'')) None, Param (Lit (PStr ''John'')) None,
            Param (Lit (PStr ''age'')) None, Param (Lit (PInt 30)) None])
   \<and> compile \<lparr>vendor = PostgreSQL,
        features = \<lparr>has_json_object_function = True, supports_partial_json_update = True,
                    is_postgresql_16 = True\<rparr>\<rparr>
      (JSONObject_init [(''name'', Value (Lit (PStr ''John'')) None), (''age'', Lit (PInt 30))])
    = Inr (''JSON_OBJECT((CAST(%s AS text)) VALUE %s, (CAST(%s AS text)) VALUE %s RETURNING JSONB)'',
           [Param (Lit (PStr ''name'')) None, Param (Lit (PStr ''John'')) None,
            Param (Lit (PStr ''age'')) None, Param (Lit (PInt 30)) None])"
proof -
  let ?f = "\<lparr>has_json_object_function = True, supports_partial_json_update = True,
            is_postgresql_16 = False\<rparr>"
  let ?f16 = "\<lparr>has_json_object_function = True, supports_partial_json_update = True,
              is_postgresql_16 = True\<rparr>"
  let ?m = "\<lparr>vendor = MySQL, features = ?f\<rparr>"
  let ?o = "\<lparr>vendor = Oracle, features = ?f\<rparr>"
  let ?p = "\<lparr>vendor = PostgreSQL, features = ?f16\<rparr>"
  let ?kw = "[(''name'', Value (Lit (PStr ''John'')) None), (''age'', Lit (PInt 30))]"
  let ?params = "[Param (Lit (PStr ''name'')) None, Param (Lit (PStr ''John'')) None,
            Param (Lit (PStr ''age'')) None, Param (Lit (PInt 30)) None]"
  let ?parts = "[''%s'', ''%s'', ''%s'', ''%s'']"
  let ?cparts = "[''CAST(%s AS text)'', ''%s'', ''CAST(%s AS text)'', ''%s'']"
  have srcs: "get_source_expressions (JSONObject_init ?kw)
      = [Value (Lit (PStr ''name'')) None, Value (Lit (PStr ''John'')) None,
         Value (Lit (PStr ''age'')) None, Value (Lit (PInt 30)) None]"
    by (simp add: JSONObject_init_def)
  have cm: "compile_all ?m (get_source_expressions (JSONObject_init ?kw)) = Inr (?parts, ?params)"
    unfolding srcs by (simp add: compile.simps)
  have co: "compile_all ?o (get_source_expressions (JSONObject_init ?kw)) = Inr (?parts, ?params)"
    unfolding srcs by (simp add: compile.simps)
  have cp: "compile_all ?p (cast_keys (get_source_expressions (JSONObject_init ?kw)))
      = Inr (?cparts, ?params)"
    unfolding srcs
    by (simp add: cast_keys_def enumerate_eq_zip upt_rec compile.simps render_def db_type_def)
  have n1: "json_object_native ?parts ''CLOB''
      = ''JSON_OBJECT((%s) VALUE %s, (%s) VALUE %s RETURNING CLOB)''"
    by (simp add: json_object_native_def upt_rec)
  have n2: "json_object_native ?cparts ''JSONB''
      = ''JSON_OBJECT((CAST(%s AS text)) VALUE %s, (CAST(%s AS text)) VALUE %s RETURNING JSONB)''"
    by (simp add: json_object_native_def upt_rec)
  have fm: "has_json_object_function (features ?m)" by simp
  have fo: "has_json_object_function (features ?o)" by simp
  have fp: "has_json_object_function (features ?p)" by simp
  have a: "compile ?m (JSONObject_init ?kw) = Inr (''JSON_OBJECT(%s, %s, %s, %s)'', ?params)"
    using JSONObject_default_rendering [OF fm, of ?kw ?parts ?params, THEN conjunct1] cm by simp
  have b: "as_native ?m (JSONObject_init ?kw) ''CLOB''
             = Inr (''JSON_OBJECT((%s) VALUE %s, (%s) VALUE %s RETURNING CLOB)'', ?params)"
    using JSONObject_default_rendering [OF fm, of ?kw ?parts ?params "''CLOB''",
        THEN conjunct2, THEN conjunct1] cm n1
    by simp
  have c: "compile ?o (JSONObject_init ?kw)
             = Inr (''JSON_OBJECT((%s) VALUE %s, (%s) VALUE %s RETURNING CLOB)'', ?params)"
    using JSONObject_default_rendering [OF fo, of ?kw ?parts ?params,
        THEN conjunct2, THEN conjunct2, THEN conjunct1] co n1
    by simp
  have d: "compile ?p (JSONObject_init ?kw)
             = Inr (''JSON_OBJECT((CAST(%s AS text)) VALUE %s, (CAST(%s AS text)) VALUE %s RETURNING JSONB)'',
                    ?params)"
    using JSONObject_default_rendering [OF fp, of ?kw ?cparts ?params,
        THEN conjunct2, THEN conjunct2, THEN conjunct2] cp n2
    by simp
  from a b c d show ?thesis by (intro conjI)
qed

subsection \<open>A literal None as update value\<close>

text \<open>
  Claim C6. The claim does not hold of the code. The branch of \<open>as_postgresql\<close> that is to
  keep \<open>None\<close> from becoming SQL \<open>NULL\<close> types the null with the output field of the node
  itself and is reached only by a value already typed as JSON. So, for a node declared with a
  text output field: a literal \<open>None\<close> is typed as text when the node is resolved, wrapped in
  \<open>TO_JSONB\<close>, and compiles to the SQL literal \<open>NULL\<close> inside the call; and a null the caller
  has typed as JSON is typed as text again by that branch and compiles to the bare \<open>NULL\<close>.
\<close>

theorem JSONSet_postgresql_null_bare:
  "resolve_expression Inr (JSONSet [Col ''data'' JSONField] (Some TextField) [(''a'', Lit PNone)])
     = Inr (JSONSet [Col ''data'' JSONField] (Some TextField)
              [(''a'', Value (Lit PNone) (Some TextField))])
   \<and> compile \<lparr>vendor = PostgreSQL,
          features = \<lparr>has_json_object_function = True, supports_partial_json_update = True,
                      is_postgresql_16 = True\<rparr>\<rparr>
        (JSONSet [Col ''data'' JSONField] (Some TextField)
           [(''a'', Value (Lit PNone) (Some TextField))])
       = Inr (''JSONB_SET('' @ [CHR 0x22] @ ''data'' @ [CHR 0x22] @ '', %s, TO_JSONB(NULL))'',
              [Param (Lit (PList [''a''])) None])
   \<and> pg_value (JSONSet [Col ''data'' JSONField] (Some TextField)
                 [(''a'', Value (Lit PNone) (Some JSONField))])
        (Value (Lit PNone) (Some JSONField))
       = Inr (Value (Lit PNone) (Some TextField))
   \<and> compile \<lparr>vendor = PostgreSQL,
          features = \<lparr>has_json_object_function = True, supports_partial_json_update = True,
                      is_postgresql_16 = True\<rparr>\<rparr>
        (JSONSet [Col ''data'' JSONField] (Some TextField)
           [(''a'', Value (Lit PNone) (Some JSONField))])
       = Inr (''JSONB_SET('' @ [CHR 0x22] @ ''data'' @ [CHR 0x22] @ '', %s, NULL)'',
              [Param (Lit (PList [''a''])) None])"
  by code_simp

subsection \<open>Compilation and the original node\<close>

lemma lookup_prefix: "prefix h h' \<Longrightarrow> lookup h a = Some ob \<Longrightarrow> lookup h' a = Some ob"
  by (auto simp: lookup_def prefix_def nth_append split: if_splits)

lemma repr_mono: "repr h a e \<Longrightarrow> prefix h h' \<Longrightarrow> repr h' a e"
proof (induction rule: repr.induct)
  case (JSONObject h a l outf d p xs srcs)
  from JSONObject.IH JSONObject.prems have "list_all2 (repr h') xs srcs"
    by (auto elim!: list_all2_mono)
  with JSONObject show ?case by (auto intro!: repr.JSONObject dest: lookup_prefix)
next
  case (JSONSet h a l outf d p xs srcs kvs flds)
  from JSONSet.IH JSONSet.prems have 1: "list_all2 (repr h') xs srcs"
    by (auto elim!: list_all2_mono)
  from JSONSet.IH JSONSet.prems
  have 2: "list_all2 (\<lambda>kv fe. fst kv = fst fe \<and> repr h' (snd kv) (snd fe)) kvs flds"
    by (auto elim!: list_all2_mono)
  from JSONSet.hyps JSONSet.prems 1 2 show ?case
    by (auto intro!: repr.JSONSet dest: lookup_prefix)
next
  case (JSONRemove h a l d paths xs srcs)
  from JSONRemove.IH JSONRemove.prems have "list_all2 (repr h') xs srcs"
    by (auto elim!: list_all2_mono)
  with JSONRemove show ?case by (auto intro!: repr.JSONRemove dest: lookup_prefix)
qed (auto intro: repr.intros dest: lookup_prefix)

lemma list_all2_repr_mono:
  "list_all2 (repr h) xs es \<Longrightarrow> prefix h h' \<Longrightarrow> list_all2 (repr h') xs es"
  by (auto elim!: list_all2_mono intro: repr_mono)

lemma fields_repr_mono:
  "list_all2 (\<lambda>kv fe. fst kv = fst fe \<and> repr h (snd kv) (snd fe)) kvs flds \<Longrightarrow> prefix h h' \<Longrightarrow>
   list_all2 (\<lambda>kv fe. fst kv = fst fe \<and> repr h' (snd kv) (snd fe)) kvs flds"
  by (auto elim!: list_all2_mono intro: repr_mono)

inductive_cases repr_LitE: "repr h a (Lit v)"
inductive_cases repr_FE: "repr h a (F name)"
inductive_cases repr_ColE: "repr h a (Col name f)"
inductive_cases repr_ValueE: "repr h a (Value v f)"
inductive_cases repr_CastE: "repr h a (Cast e f)"
inductive_cases repr_ToJSONBE: "repr h a (ToJSONB e f)"
inductive_cases repr_JSONObjectE: "repr h a (JSONObject srcs)"
inductive_cases repr_JSONSetE: "repr h a (JSONSet srcs f flds)"
inductive_cases repr_JSONRemoveE: "repr h a (JSONRemove srcs paths)"

lemma repr_is_Value: "repr h a e \<Longrightarrow> h_is_Value h a = is_Value e"
  by (induction rule: repr.induct) (simp_all add: h_is_Value_def)

lemma repr_has_resolve_expression:
  "repr h a e \<Longrightarrow> h_has_resolve_expression h a = has_resolve_expression e"
  by (induction rule: repr.induct) (simp_all add: h_has_resolve_expression_def)

lemma repr_has_vendor_impl: "repr h a e \<Longrightarrow> h_has_vendor_impl h a = has_vendor_impl e"
  by (induction rule: repr.induct) (simp_all add: h_has_vendor_impl_def)

lemma repr_output_field:
  "repr h a e \<Longrightarrow> wt e < n \<Longrightarrow> h_output_field n h a = Some (output_field e)"
proof (induction arbitrary: n rule: repr.induct)
  case (Lit h a v)
  then show ?case by (cases n) simp_all
next
  case (F h a name)
  then show ?case by (cases n) simp_all
next
  case (Col h a name f)
  then show ?case by (cases n) simp_all
next
  case (Value h a v f)
  then show ?case by (cases n; cases f) simp_all
next
  case (Cast h a l f d p x e)
  then show ?case by (cases n) simp_all
next
  case (ToJSONB h a l outf d p x e)
  then obtain m where n: "n = Suc m" by (cases n) auto
  with ToJSONB.prems have "wt e < m" by simp
  from ToJSONB.IH [OF this] ToJSONB.hyps n show ?case
    by (cases outf) (simp_all add: list_items_def)
next
  case (JSONObject h a l outf d p xs srcs)
  then show ?case by (cases n) simp_all
next
  case (JSONSet h a l outf d p xs srcs kvs flds)
  then obtain m where n: "n = Suc m" by (cases n) auto
  show ?case
  proof (cases outf)
    case (Some f)
    with JSONSet.hyps n show ?thesis by simp
  next
    case None
    show ?thesis
    proof (cases srcs)
      case Nil
      with JSONSet.IH(1) have "xs = []" by simp
      with JSONSet.hyps n None Nil show ?thesis by (simp add: list_items_def)
    next
      case (Cons s ss)
      with JSONSet.IH(1) obtain y ys where xs: "xs = y # ys"
        and y: "\<And>k. wt s < k \<Longrightarrow> h_output_field k h y = Some (output_field s)"
        by (auto simp: list_all2_Cons2)
      from JSONSet.prems n Cons have "wt s < m" by simp
      from y [OF this] JSONSet.hyps n None Cons xs show ?thesis by (simp add: list_items_def)
    qed
  qed
next
  case (JSONRemove h a l d paths xs srcs)
  then obtain m where n: "n = Suc m" by (cases n) auto
  show ?case
  proof (cases srcs)
    case Nil
    with JSONRemove.IH have "xs = []" by simp
    with JSONRemove.hyps n Nil show ?thesis by (simp add: list_items_def)
  next
    case (Cons s ss)
    with JSONRemove.IH obtain y ys where xs: "xs = y # ys"
      and y: "\<And>k. wt s < k \<Longrightarrow> h_output_field k h y = Some (output_field s)"
      by (auto simp: list_all2_Cons2)
    from JSONRemove.prems n Cons have "wt s < m" by simp
    from y [OF this] JSONRemove.hyps n Cons xs show ?thesis by (simp add: list_items_def)
  qed
qed

lemma repr_join:
  "repr h a e \<Longrightarrow> lookup h a = Some ob \<Longrightarrow> h_join_obj h ob args = join e args"
proof (induction rule: repr.induct)
  case (JSONSet h a l outf d p xs srcs kvs flds)
  show ?case
  proof (cases flds)
    case Nil
    with JSONSet.IH(2) have "kvs = []" by simp
    with JSONSet.hyps JSONSet.prems Nil show ?thesis by (simp add: dict_items_def)
  next
    case (Cons fe rest)
    obtain key ve where fe: "fe = (key, ve)" by (cases fe)
    from Cons JSONSet.IH(2) fe obtain x kvs' where kvs: "kvs = (key, x) # kvs'" and x: "repr h x ve"
      by (auto simp: list_all2_Cons2)
    from JSONSet.hyps JSONSet.prems Cons fe kvs repr_is_Value [OF x] show ?thesis
      by (simp add: dict_items_def Let_def)
  qed
next
  case (JSONRemove h a l d paths xs srcs)
  then show ?case by (cases paths) auto
qed auto

lemma lookup_append:
  "lookup (h @ t) a = (if a < length h then lookup h a else lookup t (a - length h))"
  by (auto simp: lookup_def nth_append)

lemma lookup_Cons: "lookup (x # xs) a = (case a of 0 \<Rightarrow> Some x | Suc b \<Rightarrow> lookup xs b)"
  by (auto simp: lookup_def split: nat.splits)

lemma lookup_Nil [simp]: "lookup [] a = None"
  by (simp add: lookup_def)

lemma lookup_update:
  "lookup (h[a := x]) b = (if b = a \<and> a < length h then Some x else lookup h b)"
  by (auto simp: lookup_def)

lemma lookup_Some_length: "lookup h a = Some ob \<Longrightarrow> a < length h"
  by (auto simp: lookup_def split: if_splits)

lemma prefix_lookupI:
  "length h \<le> length g \<Longrightarrow> (\<And>a. a < length h \<Longrightarrow> lookup g a = lookup h a) \<Longrightarrow> prefix h g"
proof -
  assume len: "length h \<le> length g" and eq: "\<And>a. a < length h \<Longrightarrow> lookup g a = lookup h a"
  have "take (length h) g = h"
  proof (rule nth_equalityI)
    show "length (take (length h) g) = length h" using len by simp
  next
    fix i assume "i < length (take (length h) g)"
    then have i: "i < length h" by simp
    from eq [OF i] i len show "take (length h) g ! i = h ! i" by (simp add: lookup_def)
  qed
  then show ?thesis by (metis take_is_prefix)
qed

lemma stored_Nil [simp]: "stored g base []"
  by (simp add: stored_def)

lemma stored_Cons:
  "stored g base (w # ws) \<longleftrightarrow> lookup g base = Some w \<and> stored g (Suc base) ws"
  by (auto simp: stored_def less_Suc_eq_0_disj)

lemma stored_append:
  "stored g base (ws @ vs) \<longleftrightarrow> stored g base ws \<and> stored g (base + length ws) vs"
proof (induction ws arbitrary: base)
  case Nil
  then show ?case by simp
next
  case (Cons w ws)
  then show ?case by (simp add: stored_Cons)
qed

lemma stored_self: "stored (h @ ws @ t) (length h) ws"
  by (simp add: stored_def lookup_append lookup_def nth_append)

lemma h_copy_eq:
  "lookup h a = Some (OFunc k l outf d p) \<Longrightarrow> lookup h l = Some (OList xs) \<Longrightarrow>
   h_copy h a = hret (h @ [OFunc k (Suc (length h)) outf d p, OList xs]) (length h)"
  by (simp add: h_copy_def list_items_def alloc_def h_set_source_expressions_def lookup_append
      lookup_Cons list_update_append)

lemma hbind_simps [simp]:
  "hbind None k = None"
  "hbind (hret h x) k = k h x"
  "hbind (hraise h e) k = hraise h e"
  "hbind (Some (h, Inr x)) k = k h x"
  "hbind (Some (h, Inl e)) k = Some (h, Inl e)"
  by (simp_all add: hbind_def hret_def hraise_def)

lemma h_set_items_refine:
  assumes "repr h self selfe" and "wt selfe < n"
  shows "prefix h h1 \<Longrightarrow>
         list_all2 (\<lambda>kv fe. fst kv = fst fe \<and> repr h (snd kv) (snd fe)) kvs flds \<Longrightarrow>
         (case set_items selfe flds of
            Inl e \<Rightarrow> \<exists>h2. h_set_items n h1 self kvs = Some (h2, Inl e) \<and> prefix h1 h2
          | Inr new_e \<Rightarrow>
              \<exists>ws new. h_set_items n h1 self kvs = Some (h1 @ ws, Inr new)
                \<and> (\<forall>g. prefix h g \<longrightarrow> stored g (length h1) ws \<longrightarrow> list_all2 (repr g) new new_e))"
proof (induction kvs arbitrary: flds h1)
  case Nil
  then show ?case by (simp add: hret_def)
next
  case (Cons kv kvs)
  obtain key x where kv: "kv = (key, x)" by (cases kv)
  from Cons.prems(2) kv obtain ve flds' where flds: "flds = (key, ve) # flds'"
    and x: "repr h x ve"
    and rest: "list_all2 (\<lambda>kv fe. fst kv = fst fe \<and> repr h (snd kv) (snd fe)) kvs flds'"
    by (cases flds) auto
  let ?pv = "OValue (Lit (PStr (compile_json_path (split key LOOKUP_SEP)))) None"
  let ?pe = "Value (Lit (PStr (compile_json_path (split key LOOKUP_SEP)))) None"
  let ?h1 = "h1 @ [?pv]"
  have p1: "prefix h ?h1" using Cons.prems(1) by (rule prefix_prefix)
  have isv: "h_is_Value ?h1 x = is_Value ve" using repr_is_Value [OF repr_mono [OF x p1]] .
  have outf: "h_output_field n ?h1 self = Some (output_field selfe)"
    using repr_output_field [OF repr_mono [OF assms(1) p1] assms(2)] .
  show ?case
  proof (cases "is_Value ve")
    case False
    note IH = Cons.IH [OF p1 rest]
    show ?thesis
    proof (cases "set_items selfe flds'")
      case (Inl e)
      with IH obtain h2 where "h_set_items n ?h1 self kvs = Some (h2, Inl e)" "prefix ?h1 h2"
        by auto
      then show ?thesis using False Inl kv flds isv
        by (auto simp: alloc_def dest: append_prefixD)
    next
      case (Inr tl_e)
      with IH obtain ws new where run: "h_set_items n ?h1 self kvs = Some (?h1 @ ws, Inr new)"
        and rp: "\<And>g. prefix h g \<Longrightarrow> stored g (length ?h1) ws \<Longrightarrow> list_all2 (repr g) new tl_e"
        by auto
      have "list_all2 (repr g) (length h1 # x # new) (?pe # ve # tl_e)"
        if g: "prefix h g" and st: "stored g (length h1) (?pv # ws)" for g
        using that rp [OF g] repr_mono [OF x g]
        by (auto simp: stored_Cons intro: repr.Value)
      then show ?thesis using False Inr kv flds isv run
        by (auto simp: alloc_def hret_def intro!: exI [of _ "?pv # ws"])
    qed
  next
    case True
    show ?thesis
    proof (cases "output_field selfe")
      case (Inl e)
      then show ?thesis using True kv flds isv outf
        by (auto simp: alloc_def hraise_def)
    next
      case (Inr f)
      let ?w = "[?pv, OList [x], OFunc CCast (Suc (length h1)) (Some f) None []]"
      let ?h2 = "h1 @ ?w"
      have p2: "prefix h ?h2" using Cons.prems(1) by (rule prefix_prefix)
      note IH = Cons.IH [OF p2 rest]
      have step: "h_set_items n h1 self (kv # kvs)
                    = hbind (h_set_items n ?h2 self kvs)
                        (\<lambda>h3 tail. hret h3 (length h1 # Suc (Suc (length h1)) # tail))"
        using True kv isv outf Inr by (simp add: alloc_def h_new_func_def)
      show ?thesis
      proof (cases "set_items selfe flds'")
        case (Inl e)
        with IH obtain h3 where "h_set_items n ?h2 self kvs = Some (h3, Inl e)" "prefix ?h2 h3"
          by auto
        then show ?thesis using True Inl Inr kv flds step
          by (auto dest: append_prefixD)
      next
        case tl: (Inr tl_e)
        with IH obtain ws new where run: "h_set_items n ?h2 self kvs = Some (?h2 @ ws, Inr new)"
          and rp: "\<And>g. prefix h g \<Longrightarrow> stored g (length ?h2) ws \<Longrightarrow> list_all2 (repr g) new tl_e"
          by auto
        have "list_all2 (repr g) (length h1 # Suc (Suc (length h1)) # new)
                (?pe # Cast ve f # tl_e)"
          if g: "prefix h g" and st: "stored g (length h1) (?w @ ws)" for g
        proof -
          from st have a: "lookup g (length h1) = Some ?pv"
            and b: "lookup g (Suc (length h1)) = Some (OList [x])"
            and c: "lookup g (Suc (Suc (length h1)))
                      = Some (OFunc CCast (Suc (length h1)) (Some f) None [])"
            and d: "stored g (length ?h2) ws"
            by (simp_all add: stored_append stored_Cons)
          from c b repr_mono [OF x g] have "repr g (Suc (Suc (length h1))) (Cast ve f)"
            by (rule repr.Cast)
          with a rp [OF g d] show ?thesis by (auto intro: repr.Value)
        qed
        then show ?thesis using True tl Inr kv flds step run
          by (auto simp: hret_def intro!: exI [of _ "?w @ ws"])
      qed
    qed
  qed
qed

lemma refines_hraise [simp]: "refines h (hraise h e) (Inl e)"
  by (simp add: refines_def hraise_def)

lemma refines_hret [simp]: "refines h (hret h x) (Inr x)"
  by (simp add: refines_def hret_def)

lemma refines_prefix: "prefix h h1 \<Longrightarrow> refines h1 r res \<Longrightarrow> refines h r res"
  by (auto simp: refines_def intro: prefix_order.trans)

lemma repr_lookup_JSONSet:
  assumes "repr h a (JSONSet srcs f flds)"
  obtains l d p xs kvs where "lookup h a = Some (OFunc CJSONSet l f (Some d) p)"
    and "lookup h l = Some (OList xs)" and "list_all2 (repr h) xs srcs"
    and "lookup h d = Some (ODict kvs)"
    and "list_all2 (\<lambda>kv fe. fst kv = fst fe \<and> repr h (snd kv) (snd fe)) kvs flds"
  using assms by (auto elim: repr_JSONSetE)

lemma repr_lookup_JSONRemove:
  assumes "repr h a (JSONRemove srcs paths)"
  obtains l d xs where "lookup h a = Some (OFunc CJSONRemove l None d paths)"
    and "lookup h l = Some (OList xs)" and "list_all2 (repr h) xs srcs"
  using assms by (auto elim: repr_JSONRemoveE)

lemma repr_lookup_JSONObject:
  assumes "repr h a (JSONObject srcs)"
  obtains l outf d p xs where "lookup h a = Some (OFunc CJSONObject l outf d p)"
    and "lookup h l = Some (OList xs)" and "list_all2 (repr h) xs srcs"
  using assms by (auto elim: repr_JSONObjectE)

text \<open>The heap after the copy, the allocation of wrappers and the appends to the copy's list.\<close>

lemma copy_extend_heap:
  fixes ws :: "obj list" and new :: "addr list"
  assumes a: "lookup h a = Some (OFunc k l outf d p)" and l: "lookup h l = Some (OList xs)"
  defines "h1 \<equiv> h @ [OFunc k (Suc (length h)) outf d p, OList xs]"
  defines "g \<equiv> h_set_source_expressions (h_extend (h1 @ ws) (Suc (length h)) new)
                 (length h) (Suc (length h))"
  shows "prefix h g" and "stored g (length h1) ws"
    and "lookup g (length h) = Some (OFunc k (Suc (length h)) outf d p)"
    and "lookup g (Suc (length h)) = Some (OList (xs @ new))"
proof -
  have g: "g = h @ [OFunc k (Suc (length h)) outf d p, OList (xs @ new)] @ ws"
    unfolding g_def h1_def
    by (simp add: h_extend_def h_set_source_expressions_def lookup_append lookup_Cons
        list_update_append)
  show "prefix h g" unfolding g by simp
  show "stored g (length h1) ws"
    unfolding g h1_def
    using stored_self [of "h @ [OFunc k (Suc (length h)) outf d p, OList (xs @ new)]" ws "[]"]
    by simp
  show "lookup g (length h) = Some (OFunc k (Suc (length h)) outf d p)"
    unfolding g by (simp add: lookup_append lookup_Cons)
  show "lookup g (Suc (length h)) = Some (OList (xs @ new))"
    unfolding g by (simp add: lookup_append lookup_Cons)
qed

lemma JSONSet_as_sql_prepare_refine:
  assumes self: "repr h a (JSONSet srcs f flds)" and fuel: "wt (JSONSet srcs f flds) < n"
  shows "case set_items (JSONSet srcs f flds) flds of
           Inl e \<Rightarrow> refines h (h_JSONSet_as_sql_prepare n h a) (Inl e)
         | Inr new_e \<Rightarrow>
             \<exists>h' copy. h_JSONSet_as_sql_prepare n h a = Some (h', Inr copy) \<and> prefix h h'
               \<and> srcs_repr h' copy (srcs @ new_e)"
proof -
  from self obtain l d p xs kvs where a: "lookup h a = Some (OFunc CJSONSet l f (Some d) p)"
    and l: "lookup h l = Some (OList xs)" and xs: "list_all2 (repr h) xs srcs"
    and d: "lookup h d = Some (ODict kvs)"
    and kvs: "list_all2 (\<lambda>kv fe. fst kv = fst fe \<and> repr h (snd kv) (snd fe)) kvs flds"
    by (rule repr_lookup_JSONSet)
  let ?h1 = "h @ [OFunc CJSONSet (Suc (length h)) f (Some d) p, OList xs]"
  have p1: "prefix h ?h1" by simp
  have al: "a < length h" "d < length h" using a d by (auto dest: lookup_Some_length)
  have prep: "h_JSONSet_as_sql_prepare n h a
      = hbind (h_set_items n ?h1 a kvs) (\<lambda>h2 new.
          hret (h_set_source_expressions (h_extend h2 (Suc (length h)) new)
                  (length h) (Suc (length h))) (length h))"
    using a l d al
    by (simp add: h_JSONSet_as_sql_prepare_def h_copy_eq [OF a l] h_get_source_expressions_def
        h_fields_items_def dict_items_def lookup_append lookup_Cons)
  note items = h_set_items_refine [OF self fuel p1 kvs]
  show ?thesis
  proof (cases "set_items (JSONSet srcs f flds) flds")
    case (Inl e)
    with items obtain h2 where "h_set_items n ?h1 a kvs = Some (h2, Inl e)" "prefix ?h1 h2"
      by auto
    then show ?thesis using Inl prep
      by (auto simp: refines_def dest: append_prefixD)
  next
    case (Inr new_e)
    with items obtain ws new where run: "h_set_items n ?h1 a kvs = Some (?h1 @ ws, Inr new)"
      and rp: "\<And>g. prefix h g \<Longrightarrow> stored g (length ?h1) ws \<Longrightarrow> list_all2 (repr g) new new_e"
      by auto
    let ?g = "h_set_source_expressions (h_extend (?h1 @ ws) (Suc (length h)) new)
                 (length h) (Suc (length h))"
    note g = copy_extend_heap [OF a l, of ws new]
    have "list_all2 (repr ?g) (xs @ new) (srcs @ new_e)"
      using list_all2_repr_mono [OF xs g(1)] rp [OF g(1) g(2)] by (rule list_all2_appendI)
    with g(3,4) have "srcs_repr ?g (length h) (srcs @ new_e)"
      unfolding srcs_repr_def by blast
    with g(1) show ?thesis using Inr prep run by (simp add: hret_def)
  qed
qed

lemma upt_shift: "[b..<b + Suc n] = b # [Suc b..<Suc b + n]"
  using upt_conv_Cons [of b "b + Suc n"] by simp

lemma h_alloc_all_eq: "h_alloc_all h1 obs = (h1 @ obs, [length h1..<length h1 + length obs])"
proof (induction obs arbitrary: h1)
  case Nil
  then show ?case by simp
next
  case (Cons ob obs)
  have "[length h1..<length h1 + length (ob # obs)]
          = length h1 # [Suc (length h1)..<Suc (length h1) + length obs]"
    by (simp only: length_Cons upt_shift)
  moreover have "h_alloc_all (h1 @ [ob]) obs
          = ((h1 @ [ob]) @ obs, [Suc (length h1)..<Suc (length h1) + length obs])"
    using Cons [of "h1 @ [ob]"] by (simp only: length_append length_Cons list.size add_Suc_right add_0_right)
  ultimately show ?case by (simp only: h_alloc_all.simps alloc_def Let_def prod.case append_assoc append_Cons append_Nil)
qed

lemma stored_Values:
  "stored g base (map (\<lambda>x. OValue (v x) None) xs) \<Longrightarrow>
   list_all2 (repr g) [base..<base + length xs] (map (\<lambda>x. Value (v x) None) xs)"
proof (induction xs arbitrary: base)
  case Nil
  then show ?case by simp
next
  case (Cons x xs)
  from Cons.prems have a: "lookup g base = Some (OValue (v x) None)"
    and b: "stored g (Suc base) (map (\<lambda>x. OValue (v x) None) xs)"
    by (simp_all add: stored_Cons)
  have "[base..<base + length (x # xs)] = base # [Suc base..<Suc base + length xs]"
    by (simp only: length_Cons upt_shift)
  moreover have "repr g base (Value (v x) None)" using a by (rule repr.Value)
  ultimately show ?case using Cons.IH [OF b]
    by (simp only: list.map list_all2_Cons simp_thms)
qed

lemma h_cast_keys_refine:
  "prefix h h1 \<Longrightarrow> list_all2 (repr h) xs es \<Longrightarrow>
   \<exists>ws new. h_cast_keys h1 (List.enumerate i xs) = (h1 @ ws, new)
     \<and> (\<forall>g. prefix h g \<longrightarrow> stored g (length h1) ws \<longrightarrow>
            list_all2 (repr g) new
              (map (\<lambda>(index, expression). if index mod 2 = 0 then Cast expression TextField
                                          else expression) (List.enumerate i es)))"
proof (induction xs arbitrary: es i h1)
  case Nil
  then show ?case by simp
next
  case (Cons x xs)
  from Cons.prems(2) obtain e es' where es: "es = e # es'" and x: "repr h x e"
    and rest: "list_all2 (repr h) xs es'"
    by (cases es) auto
  show ?case
  proof (cases "i mod 2 = 0")
    case True
    let ?w = "[OList [x], OFunc CCast (length h1) (Some TextField) None []]"
    have p: "prefix h (h1 @ ?w)" using Cons.prems(1) by (rule prefix_prefix)
    from Cons.IH [OF p rest, of "Suc i"] obtain ws new where
      run: "h_cast_keys (h1 @ ?w) (List.enumerate (Suc i) xs) = ((h1 @ ?w) @ ws, new)"
      and rp: "\<And>g. prefix h g \<Longrightarrow> stored g (length (h1 @ ?w)) ws \<Longrightarrow>
            list_all2 (repr g) new
              (map (\<lambda>(index, expression). if index mod 2 = 0 then Cast expression TextField
                                          else expression) (List.enumerate (Suc i) es'))"
      by blast
    have "list_all2 (repr g) (Suc (length h1) # new)
              (map (\<lambda>(index, expression). if index mod 2 = 0 then Cast expression TextField
                                          else expression) (List.enumerate i es))"
      if g: "prefix h g" and st: "stored g (length h1) (?w @ ws)" for g
    proof -
      from st have a: "lookup g (length h1) = Some (OList [x])"
        and b: "lookup g (Suc (length h1)) = Some (OFunc CCast (length h1) (Some TextField) None [])"
        and c: "stored g (length (h1 @ ?w)) ws"
        by (simp_all add: stored_append stored_Cons)
      from b a repr_mono [OF x g] have "repr g (Suc (length h1)) (Cast e TextField)"
        by (rule repr.Cast)
      with rp [OF g c] show ?thesis using True es by simp
    qed
    then show ?thesis using True run
      by (auto simp: h_new_func_def alloc_def intro!: exI [of _ "?w @ ws"])
  next
    case False
    from Cons.IH [OF Cons.prems(1) rest, of "Suc i"] obtain ws new where
      run: "h_cast_keys h1 (List.enumerate (Suc i) xs) = (h1 @ ws, new)"
      and rp: "\<And>g. prefix h g \<Longrightarrow> stored g (length h1) ws \<Longrightarrow>
            list_all2 (repr g) new
              (map (\<lambda>(index, expression). if index mod 2 = 0 then Cast expression TextField
                                          else expression) (List.enumerate (Suc i) es'))"
      by blast
    have "list_all2 (repr g) (x # new)
              (map (\<lambda>(index, expression). if index mod 2 = 0 then Cast expression TextField
                                          else expression) (List.enumerate i es))"
      if g: "prefix h g" and st: "stored g (length h1) ws" for g
      using rp [OF g st] repr_mono [OF x g] False es by simp
    then show ?thesis using False run by auto
  qed
qed

lemma h_pg_value_refine:
  assumes self: "repr h self selfe" and fs: "wt selfe < n"
    and v: "repr h v ve" and fv: "wt ve < n" and p: "prefix h h1"
  shows "case pg_value selfe ve of
           Inl e \<Rightarrow> h_pg_value n h1 self v = Some (h1, Inl e)
         | Inr v' \<Rightarrow>
             \<exists>ws va. h_pg_value n h1 self v = Some (h1 @ ws, Inr va)
               \<and> (\<forall>g. prefix h g \<longrightarrow> stored g (length h1) ws \<longrightarrow> repr g va v')"
proof -
  note v1 = repr_mono [OF v p]
  have hre: "h_has_resolve_expression h1 v = has_resolve_expression ve"
    by (rule repr_has_resolve_expression [OF v1])
  have ov: "h_output_field n h1 v = Some (output_field ve)"
    by (rule repr_output_field [OF v1 fv])
  have os: "h_output_field n h1 self = Some (output_field selfe)"
    by (rule repr_output_field [OF repr_mono [OF self p] fs])
  have same: "\<exists>ws. h1 = h1 @ ws \<and> (\<forall>g. prefix h g \<longrightarrow> stored g (length h1) ws \<longrightarrow> repr g v ve)"
    using v by (auto intro: repr_mono intro!: exI [of _ "[]"])
  show ?thesis
  proof (cases "has_resolve_expression ve")
    case False
    then show ?thesis using hre same by (auto simp: pg_value_def h_pg_value_def hret_def)
  next
    case True
    show ?thesis
    proof (cases "output_field ve")
      case (Inl e)
      then show ?thesis using True hre ov
        by (simp add: pg_value_def h_pg_value_def hraise_def)
    next
      case (Inr vf)
      show ?thesis
      proof (cases "vf = JSONField")
        case False
        show ?thesis
        proof (cases "output_field selfe")
          case (Inl e)
          then show ?thesis using True hre ov os Inr False
            by (simp add: pg_value_def h_pg_value_def hraise_def)
        next
          case f: (Inr f)
          let ?w = "[OList [v], OFunc CToJSONB (length h1) (Some f) None []]"
          have "repr g (Suc (length h1)) (ToJSONB ve (Some f))"
            if g: "prefix h g" and st: "stored g (length h1) ?w" for g
          proof -
            from st have a: "lookup g (length h1) = Some (OList [v])"
              and b: "lookup g (Suc (length h1)) = Some (OFunc CToJSONB (length h1) (Some f) None [])"
              by (simp_all add: stored_Cons)
            from b a repr_mono [OF v g] show ?thesis by (rule repr.ToJSONB)
          qed
          then show ?thesis using True hre ov os Inr False f
            by (auto simp: pg_value_def h_pg_value_def h_new_func_def alloc_def hret_def
                intro!: exI [of _ ?w])
        qed
      next
        case json: True
        show ?thesis
        proof (cases "\<exists>vo. ve = Value (Lit PNone) vo")
          case none: True
          then obtain vo where ve: "ve = Value (Lit PNone) vo" by blast
          with v1 have lv: "lookup h1 v = Some (OValue (Lit PNone) vo)"
            by (auto elim: repr_ValueE)
          show ?thesis
          proof (cases "output_field selfe")
            case (Inl e)
            then show ?thesis using True hre ov os Inr json ve lv
              by (simp add: pg_value_def h_pg_value_def hraise_def)
          next
            case f: (Inr f)
            have "repr g (length h1) (Value (Lit PNone) (Some f))"
              if "stored g (length h1) [OValue (Lit PNone) (Some f)]" for g
              using that by (auto simp: stored_Cons intro: repr.Value)
            then show ?thesis using True hre ov os Inr json ve lv f
              by (auto simp: pg_value_def h_pg_value_def alloc_def hret_def
                  intro!: exI [of _ "[OValue (Lit PNone) (Some f)]"])
          qed
        next
          case other: False
          have pure: "pg_value selfe ve = Inr ve"
            using True Inr json other
            by (auto simp: pg_value_def split: expr.splits pyval.splits)
          have "\<not> (\<exists>vo. lookup h1 v = Some (OValue (Lit PNone) vo))"
            using v1 other by (auto elim: repr.cases)
          then have heap: "h_pg_value n h1 self v = hret h1 v"
            using True hre ov Inr json
            by (auto simp: h_pg_value_def split: option.splits obj.splits expr.splits pyval.splits)
          show ?thesis using pure heap same by (auto simp: hret_def)
        qed
      qed
    qed
  qed
qed

lemma h_oracle_value_refine:
  assumes self: "repr h self selfe" and fs: "wt selfe < n"
    and v: "repr h v ve" and p: "prefix h h1"
  shows "case oracle_value selfe ve of
           Inl e \<Rightarrow> h_oracle_value n h1 self v = Some (h1, Inl e)
         | Inr v' \<Rightarrow>
             \<exists>ws va. h_oracle_value n h1 self v = Some (h1 @ ws, Inr va)
               \<and> (\<forall>g. prefix h g \<longrightarrow> stored g (length h1) ws \<longrightarrow> repr g va v')"
proof -
  note v1 = repr_mono [OF v p]
  have os: "h_output_field n h1 self = Some (output_field selfe)"
    by (rule repr_output_field [OF repr_mono [OF self p] fs])
  show ?thesis
  proof (cases "is_Value ve")
    case True
    then obtain pv vf where ve: "ve = Value pv vf" by (cases ve) auto
    with v1 have lv: "lookup h1 v = Some (OValue pv vf)" by (auto elim: repr_ValueE)
    show ?thesis
    proof (cases "output_field selfe")
      case (Inl e)
      then show ?thesis using ve lv os by (simp add: oracle_value_def h_oracle_value_def hraise_def)
    next
      case (Inr f)
      have "repr g (length h1) (Value (Value pv vf) (Some f))"
        if "stored g (length h1) [OValue (Value pv vf) (Some f)]" for g
        using that by (auto simp: stored_Cons intro: repr.Value)
      then show ?thesis using ve lv os Inr
        by (auto simp: oracle_value_def h_oracle_value_def alloc_def hret_def
            intro!: exI [of _ "[OValue (Value pv vf) (Some f)]"])
    qed
  next
    case False
    have "\<not> (\<exists>pv vf. lookup h1 v = Some (OValue pv vf))"
      using v1 False by (auto elim: repr.cases)
    then have heap: "h_oracle_value n h1 self v = hret h1 v"
      by (auto simp: h_oracle_value_def split: option.splits obj.splits)
    have "\<exists>ws. h1 = h1 @ ws \<and> (\<forall>g. prefix h g \<longrightarrow> stored g (length h1) ws \<longrightarrow> repr g v ve)"
      using v by (auto intro: repr_mono intro!: exI [of _ "[]"])
    then show ?thesis using False heap by (auto simp: oracle_value_def hret_def)
  qed
qed

lemma update_rel:
  "list_all2 (\<lambda>kv fe. fst kv = fst fe \<and> R (snd kv) (snd fe)) al bl \<Longrightarrow> R v v' \<Longrightarrow>
   list_all2 (\<lambda>kv fe. fst kv = fst fe \<and> R (snd kv) (snd fe))
     (AList.update k v al) (AList.update k v' bl)"
  by (induction al bl rule: list_all2_induct) auto

lemma foldl_update_rel:
  "list_all2 (\<lambda>kv fe. fst kv = fst fe \<and> R (snd kv) (snd fe)) xs ys \<Longrightarrow>
   list_all2 (\<lambda>kv fe. fst kv = fst fe \<and> R (snd kv) (snd fe)) al bl \<Longrightarrow>
   list_all2 (\<lambda>kv fe. fst kv = fst fe \<and> R (snd kv) (snd fe))
     (foldl (\<lambda>d (k, v). AList.update k v d) al xs) (foldl (\<lambda>d (k, v). AList.update k v d) bl ys)"
proof (induction xs ys arbitrary: al bl rule: list_all2_induct)
  case Nil
  then show ?case by simp
next
  case (Cons x xs y ys)
  obtain k v where x: "x = (k, v)" by (cases x)
  obtain k' v' where y: "y = (k', v')" by (cases y)
  from Cons.hyps(1) x y have k: "k' = k" and r: "R v v'" by simp_all
  from Cons.IH [OF update_rel [OF Cons.prems r, of k]] show ?case using x y k by simp
qed

lemma dict_rel:
  "list_all2 (\<lambda>kv fe. fst kv = fst fe \<and> R (snd kv) (snd fe)) xs ys \<Longrightarrow>
   list_all2 (\<lambda>kv fe. fst kv = fst fe \<and> R (snd kv) (snd fe)) (dict xs) (dict ys)"
  unfolding dict_def by (rule foldl_update_rel) simp_all

lemma JSONRemove_as_sql_prepare_refine:
  assumes self: "repr h a (JSONRemove srcs paths)"
  shows "\<exists>h' copy. h_JSONRemove_as_sql_prepare h a = Some (h', Inr copy) \<and> prefix h h'
           \<and> srcs_repr h' copy
                (srcs @ map (\<lambda>path. Value (Lit (PStr (compile_json_path (split path LOOKUP_SEP))))
                                    None) paths)"
proof -
  from self obtain l d xs where a: "lookup h a = Some (OFunc CJSONRemove l None d paths)"
    and l: "lookup h l = Some (OList xs)" and xs: "list_all2 (repr h) xs srcs"
    by (rule repr_lookup_JSONRemove)
  let ?h1 = "h @ [OFunc CJSONRemove (Suc (length h)) None d paths, OList xs]"
  let ?ws = "map (\<lambda>path. OValue (Lit (PStr (compile_json_path (split path LOOKUP_SEP)))) None) paths"
  let ?new = "[length ?h1..<length ?h1 + length paths]"
  let ?g = "h_set_source_expressions (h_extend (?h1 @ ?ws) (Suc (length h)) ?new)
              (length h) (Suc (length h))"
  have al: "a < length h" using a by (auto dest: lookup_Some_length)
  have prep: "h_JSONRemove_as_sql_prepare h a = hret ?g (length h)"
    using a al h_alloc_all_eq [of ?h1 ?ws]
    by (simp add: h_JSONRemove_as_sql_prepare_def h_copy_eq [OF a l] h_get_source_expressions_def
        h_paths_def lookup_append lookup_Cons)
  note g = copy_extend_heap [OF a l, of ?ws ?new]
  have "list_all2 (repr ?g) ?new
          (map (\<lambda>path. Value (Lit (PStr (compile_json_path (split path LOOKUP_SEP)))) None) paths)"
    using stored_Values [OF g(2)] .
  with list_all2_repr_mono [OF xs g(1)]
  have "list_all2 (repr ?g) (xs @ ?new)
          (srcs @ map (\<lambda>path. Value (Lit (PStr (compile_json_path (split path LOOKUP_SEP)))) None)
                    paths)"
    by (rule list_all2_appendI)
  with g(3,4) have "srcs_repr ?g (length h)
          (srcs @ map (\<lambda>path. Value (Lit (PStr (compile_json_path (split path LOOKUP_SEP)))) None)
                    paths)"
    unfolding srcs_repr_def by blast
  with g(1) prep show ?thesis by (auto simp: hret_def)
qed

lemma JSONObject_as_postgresql_prepare_refine:
  assumes self: "repr h a (JSONObject srcs)"
  shows "\<exists>h' copy. h_JSONObject_as_postgresql_prepare h a = Some (h', Inr copy) \<and> prefix h h'
           \<and> repr h' copy (JSONObject (cast_keys srcs))"
proof -
  from self obtain l outf d p xs where a: "lookup h a = Some (OFunc CJSONObject l outf d p)"
    and l: "lookup h l = Some (OList xs)" and xs: "list_all2 (repr h) xs srcs"
    by (rule repr_lookup_JSONObject)
  let ?h1 = "h @ [OFunc CJSONObject (Suc (length h)) outf d p, OList xs]"
  have p1: "prefix h ?h1" by simp
  from h_cast_keys_refine [OF p1 xs, of 0] obtain ws new where
    run: "h_cast_keys ?h1 (List.enumerate 0 xs) = (?h1 @ ws, new)"
    and rp: "\<And>g. prefix h g \<Longrightarrow> stored g (length ?h1) ws \<Longrightarrow> list_all2 (repr g) new (cast_keys srcs)"
    unfolding cast_keys_def by blast
  let ?l' = "length h + 2 + length ws"
  let ?g = "h @ [OFunc CJSONObject ?l' outf d p, OList xs] @ ws @ [OList new]"
  have prep: "h_JSONObject_as_postgresql_prepare h a = hret ?g (length h)"
    using run
    by (simp add: h_JSONObject_as_postgresql_prepare_def h_copy_eq [OF a l]
        h_get_source_expressions_def list_items_def alloc_def h_set_source_expressions_def
        lookup_append lookup_Cons list_update_append)
  have pg: "prefix h ?g" by simp
  have st: "stored ?g (length ?h1) ws"
    using stored_self [of "h @ [OFunc CJSONObject ?l' outf d p, OList xs]" ws "[OList new]"]
    by simp
  have la: "lookup ?g (length h) = Some (OFunc CJSONObject ?l' outf d p)"
    by (simp add: lookup_append lookup_Cons)
  have ll: "lookup ?g ?l' = Some (OList new)"
    by (simp add: lookup_append lookup_Cons lookup_def nth_append)
  from la ll rp [OF pg st] have "repr ?g (length h) (JSONObject (cast_keys srcs))"
    by (rule repr.JSONObject)
  with pg prep show ?thesis by (auto simp: hret_def)
qed

text \<open>The node the recursive branch of JSONSet.as_postgresql and as_oracle builds.\<close>

lemma JSONSet_wrap_refine:
  fixes key :: string
  assumes a: "lookup h a = Some (OFunc CJSONSet l f (Some d) p)"
    and l: "lookup h l = Some (OList xs)" and xs: "list_all2 (repr h) xs srcs"
    and x: "repr h x ve"
    and rest: "list_all2 (\<lambda>kv fe. fst kv = fst fe \<and> repr h (snd kv) (snd fe)) kvs flds"
  defines "h1 \<equiv> h @ [OFunc CJSONSet (Suc (length h)) f (Some d) p, OList xs]"
  shows "case JSONSet_init (JSONSet srcs f [(key, ve)]) None (dict flds) of
           Inl e \<Rightarrow> refines h (h_JSONSet_wrap h1 (length h) key x kvs) (Inl e)
         | Inr node_e \<Rightarrow>
             \<exists>g node. h_JSONSet_wrap h1 (length h) key x kvs = Some (g, Inr (True, node))
               \<and> prefix h g \<and> repr g node node_e"
proof -
  note dr = dict_rel [OF rest]
  show ?thesis
  proof (cases "dict flds = []")
    case True
    with dr have dk: "dict kvs = []" by simp
    have "refines h (h_JSONSet_wrap h1 (length h) key x kvs) (Inl TypeError)"
      using dk unfolding h1_def
      by (simp add: h_JSONSet_wrap_def alloc_def h_set_fields_def h_JSONSet_init_def h_parse_expression_def
          lookup_append lookup_Cons list_update_append refines_def hraise_def)
    then show ?thesis using True by (simp add: JSONSet_init_def)
  next
    case False
    with dr have dk: "dict kvs \<noteq> []" by auto
    let ?g = "h @ [OFunc CJSONSet (Suc (length h)) f (Some (length h + 2)) p, OList xs,
                    ODict [(key, x)], ODict (dict kvs), OList [length h],
                    OFunc CJSONSet (length h + 4) None (Some (length h + 3)) []]"
    have run: "h_JSONSet_wrap h1 (length h) key x kvs = hret ?g (True, length h + 5)"
      using dk unfolding h1_def
      by (simp add: h_JSONSet_wrap_def alloc_def h_set_fields_def h_JSONSet_init_def h_parse_expression_def
          lookup_append lookup_Cons list_update_append eval_nat_numeral)
    have pg: "prefix h ?g" by simp
    have c1: "lookup ?g (length h)
                = Some (OFunc CJSONSet (Suc (length h)) f (Some (length h + 2)) p)"
      and c2: "lookup ?g (Suc (length h)) = Some (OList xs)"
      and c3: "lookup ?g (length h + 2) = Some (ODict [(key, x)])"
      and c4: "lookup ?g (length h + 3) = Some (ODict (dict kvs))"
      and c5: "lookup ?g (length h + 4) = Some (OList [length h])"
      and c6: "lookup ?g (length h + 5)
                = Some (OFunc CJSONSet (length h + 4) None (Some (length h + 3)) [])"
      by (simp_all add: lookup_append lookup_Cons eval_nat_numeral)
    have inner: "repr ?g (length h) (JSONSet srcs f [(key, ve)])"
      using c1 c2 list_all2_repr_mono [OF xs pg] c3
    proof (rule repr.JSONSet)
      show "list_all2 (\<lambda>kv fe. fst kv = fst fe \<and> repr ?g (snd kv) (snd fe))
              [(key, x)] [(key, ve)]"
        using repr_mono [OF x pg] by simp
    qed
    have "repr ?g (length h + 5) (JSONSet [JSONSet srcs f [(key, ve)]] None (dict flds))"
      using c6 c5 _ c4 fields_repr_mono [OF dr pg]
    proof (rule repr.JSONSet)
      show "list_all2 (repr ?g) [length h] [JSONSet srcs f [(key, ve)]]" using inner by simp
    qed
    with pg run show ?thesis using False by (auto simp: JSONSet_init_def hret_def)
  qed
qed

lemma JSONRemove_wrap_refine:
  fixes path :: string
  assumes a: "lookup h a = Some (OFunc CJSONRemove l None d paths)"
    and l: "lookup h l = Some (OList xs)" and xs: "list_all2 (repr h) xs srcs"
  defines "h1 \<equiv> h @ [OFunc CJSONRemove (Suc (length h)) None d paths, OList xs]"
  shows "case JSONRemove_init (JSONRemove srcs [path]) rest of
           Inl e \<Rightarrow> refines h (h_JSONRemove_wrap h1 (length h) path rest) (Inl e)
         | Inr node_e \<Rightarrow>
             \<exists>g node. h_JSONRemove_wrap h1 (length h) path rest = Some (g, Inr (True, node))
               \<and> prefix h g \<and> repr g node node_e"
proof (cases "rest = []")
  case True
  have "refines h (h_JSONRemove_wrap h1 (length h) path rest) (Inl TypeError)"
    using True unfolding h1_def
    by (simp add: h_JSONRemove_wrap_def h_JSONRemove_init_def h_parse_expression_def h_set_paths_def
        lookup_append lookup_Cons list_update_append refines_def hraise_def)
  then show ?thesis using True by (simp add: JSONRemove_init_def)
next
  case False
  let ?g = "h @ [OFunc CJSONRemove (Suc (length h)) None d [path], OList xs,
                  OList [length h], OFunc CJSONRemove (length h + 2) None None rest]"
  have run: "h_JSONRemove_wrap h1 (length h) path rest = hret ?g (True, length h + 3)"
    using False unfolding h1_def
    by (simp add: h_JSONRemove_wrap_def h_JSONRemove_init_def h_parse_expression_def h_set_paths_def alloc_def
        lookup_append lookup_Cons list_update_append eval_nat_numeral)
  have pg: "prefix h ?g" by simp
  have c1: "lookup ?g (length h) = Some (OFunc CJSONRemove (Suc (length h)) None d [path])"
    and c2: "lookup ?g (Suc (length h)) = Some (OList xs)"
    and c3: "lookup ?g (length h + 2) = Some (OList [length h])"
    and c4: "lookup ?g (length h + 3) = Some (OFunc CJSONRemove (length h + 2) None None rest)"
    by (simp_all add: lookup_append lookup_Cons eval_nat_numeral)
  have inner: "repr ?g (length h) (JSONRemove srcs [path])"
    using c1 c2 list_all2_repr_mono [OF xs pg] by (rule repr.JSONRemove)
  have "repr ?g (length h + 3) (JSONRemove [JSONRemove srcs [path]] rest)"
    using c4 c3
  proof (rule repr.JSONRemove)
    show "list_all2 (repr ?g) [length h] [JSONRemove srcs [path]]" using inner by simp
  qed
  with pg run show ?thesis using False by (auto simp: JSONRemove_init_def hret_def)
qed

text \<open>The heap after the copy and two rounds of appends with an allocation in between.\<close>

lemma copy_extend2_heap:
  fixes ws :: "obj list" and w :: obj and va :: addr
  assumes a: "lookup h a = Some (OFunc k l outf d p)" and l: "lookup h l = Some (OList xs)"
  defines "h3 \<equiv> h @ [OFunc k (Suc (length h)) outf d p, OList (xs @ [length h + 2]), w]"
  defines "g \<equiv> h_set_source_expressions (h_extend (h3 @ ws) (Suc (length h)) [va])
                 (length h) (Suc (length h))"
  shows "prefix h g" and "stored g (length h3) ws"
    and "lookup g (length h) = Some (OFunc k (Suc (length h)) outf d p)"
    and "lookup g (Suc (length h)) = Some (OList (xs @ [length h + 2, va]))"
    and "lookup g (length h + 2) = Some w"
proof -
  have g: "g = h @ [OFunc k (Suc (length h)) outf d p, OList (xs @ [length h + 2, va]), w] @ ws"
    unfolding g_def h3_def
    by (simp add: h_extend_def h_set_source_expressions_def lookup_append lookup_Cons
        list_update_append)
  show "prefix h g" unfolding g by simp
  show "stored g (length h3) ws"
    unfolding g h3_def
    using stored_self [of "h @ [OFunc k (Suc (length h)) outf d p,
                                OList (xs @ [length h + 2, va]), w]" ws "[]"]
    by simp
  show "lookup g (length h) = Some (OFunc k (Suc (length h)) outf d p)"
    unfolding g by (simp add: lookup_append lookup_Cons)
  show "lookup g (Suc (length h)) = Some (OList (xs @ [length h + 2, va]))"
    unfolding g by (simp add: lookup_append lookup_Cons)
  show "lookup g (length h + 2) = Some w"
    unfolding g by (simp add: lookup_append lookup_Cons eval_nat_numeral)
qed

lemma JSONSet_as_postgresql_prepare_nil:
  assumes self: "repr h a (JSONSet srcs f [])"
  shows "refines h (h_JSONSet_as_postgresql_prepare n h a) (Inl IndexError)"
    and "refines h (h_JSONSet_as_oracle_prepare n h a) (Inl IndexError)"
proof -
  from self obtain l d p xs kvs where a: "lookup h a = Some (OFunc CJSONSet l f (Some d) p)"
    and l: "lookup h l = Some (OList xs)" and d: "lookup h d = Some (ODict kvs)"
    and kvs: "list_all2 (\<lambda>kv fe. fst kv = fst fe \<and> repr h (snd kv) (snd fe)) kvs []"
    by (rule repr_lookup_JSONSet)
  have al: "a < length h" "d < length h" using a d by (auto dest: lookup_Some_length)
  from kvs have "kvs = []" by simp
  then show "refines h (h_JSONSet_as_postgresql_prepare n h a) (Inl IndexError)"
    and "refines h (h_JSONSet_as_oracle_prepare n h a) (Inl IndexError)"
    using a d al
    by (simp_all add: h_JSONSet_as_postgresql_prepare_def h_JSONSet_as_oracle_prepare_def
        h_copy_eq [OF a l] h_fields_items_def dict_items_def lookup_append lookup_Cons
        refines_def hraise_def)
qed

lemma JSONSet_prepare_multi:
  assumes self: "repr h a (JSONSet srcs f ((key, ve) # r # rest))"
  shows "case JSONSet_init (JSONSet srcs f [(key, ve)]) None (dict (r # rest)) of
           Inl e \<Rightarrow> refines h (h_JSONSet_as_postgresql_prepare n h a) (Inl e)
                    \<and> refines h (h_JSONSet_as_oracle_prepare n h a) (Inl e)
         | Inr node_e \<Rightarrow>
             (\<exists>g node. h_JSONSet_as_postgresql_prepare n h a = Some (g, Inr (True, node))
                \<and> prefix h g \<and> repr g node node_e)
             \<and> (\<exists>g node. h_JSONSet_as_oracle_prepare n h a = Some (g, Inr (True, node))
                \<and> prefix h g \<and> repr g node node_e)"
proof -
  from self obtain l d p xs kvs0 where a: "lookup h a = Some (OFunc CJSONSet l f (Some d) p)"
    and l: "lookup h l = Some (OList xs)" and xs: "list_all2 (repr h) xs srcs"
    and d: "lookup h d = Some (ODict kvs0)"
    and kvs0: "list_all2 (\<lambda>kv fe. fst kv = fst fe \<and> repr h (snd kv) (snd fe)) kvs0
                 ((key, ve) # r # rest)"
    by (rule repr_lookup_JSONSet)
  from kvs0 obtain x kvs where k0: "kvs0 = (key, x) # kvs" and x: "repr h x ve"
    and kvs: "list_all2 (\<lambda>kv fe. fst kv = fst fe \<and> repr h (snd kv) (snd fe)) kvs (r # rest)"
    by (auto simp: list_all2_Cons2)
  from kvs have ne: "kvs \<noteq> []" by auto
  have al: "a < length h" "d < length h" using a d by (auto dest: lookup_Some_length)
  let ?h1 = "h @ [OFunc CJSONSet (Suc (length h)) f (Some d) p, OList xs]"
  have pg: "h_JSONSet_as_postgresql_prepare n h a = h_JSONSet_wrap ?h1 (length h) key x kvs"
    and ora: "h_JSONSet_as_oracle_prepare n h a = h_JSONSet_wrap ?h1 (length h) key x kvs"
    using a d al k0 ne
    by (simp_all add: h_JSONSet_as_postgresql_prepare_def h_JSONSet_as_oracle_prepare_def
        h_copy_eq [OF a l] h_fields_items_def dict_items_def lookup_append lookup_Cons)
  from JSONSet_wrap_refine [OF a l xs x kvs, of key] show ?thesis
    unfolding pg ora by (auto split: sum.splits)
qed

lemma JSONSet_as_postgresql_prepare_single:
  assumes self: "repr h a (JSONSet srcs f [(key, ve)])"
    and fuel: "wt (JSONSet srcs f [(key, ve)]) < n"
  shows "case pg_value (JSONSet srcs f [(key, ve)]) ve of
           Inl e \<Rightarrow> refines h (h_JSONSet_as_postgresql_prepare n h a) (Inl e)
         | Inr v' \<Rightarrow>
             \<exists>g copy. h_JSONSet_as_postgresql_prepare n h a = Some (g, Inr (False, copy))
               \<and> prefix h g
               \<and> srcs_repr g copy (srcs @ [Value (Lit (PList (split key LOOKUP_SEP))) None, v'])"
proof -
  from self obtain l d p xs kvs0 where a: "lookup h a = Some (OFunc CJSONSet l f (Some d) p)"
    and l: "lookup h l = Some (OList xs)" and xs: "list_all2 (repr h) xs srcs"
    and d: "lookup h d = Some (ODict kvs0)"
    and kvs0: "list_all2 (\<lambda>kv fe. fst kv = fst fe \<and> repr h (snd kv) (snd fe)) kvs0 [(key, ve)]"
    by (rule repr_lookup_JSONSet)
  from kvs0 obtain x where k0: "kvs0 = [(key, x)]" and x: "repr h x ve"
    by (auto simp: list_all2_Cons2)
  have al: "a < length h" "d < length h" using a d by (auto dest: lookup_Some_length)
  let ?w = "OValue (Lit (PList (split key LOOKUP_SEP))) None"
  let ?h3 = "h @ [OFunc CJSONSet (Suc (length h)) f (Some d) p, OList (xs @ [length h + 2]), ?w]"
  have p3: "prefix h ?h3" by simp
  have prep: "h_JSONSet_as_postgresql_prepare n h a
      = hbind (h_pg_value n ?h3 a x) (\<lambda>h4 value'.
          hret (h_set_source_expressions (h_extend h4 (Suc (length h)) [value'])
                  (length h) (Suc (length h))) (False, length h))"
    using a d al k0
    by (simp add: h_JSONSet_as_postgresql_prepare_def h_copy_eq [OF a l] h_fields_items_def
        dict_items_def h_get_source_expressions_def alloc_def h_extend_def
        lookup_append lookup_Cons list_update_append eval_nat_numeral)
  have fv: "wt ve < n" using fuel by simp
  note val = h_pg_value_refine [OF self fuel x fv p3]
  show ?thesis
  proof (cases "pg_value (JSONSet srcs f [(key, ve)]) ve")
    case (Inl e)
    with val have "h_pg_value n ?h3 a x = Some (?h3, Inl e)" by simp
    then show ?thesis using Inl prep p3 by (auto simp: refines_def)
  next
    case (Inr v')
    with val obtain ws va where run: "h_pg_value n ?h3 a x = Some (?h3 @ ws, Inr va)"
      and rp: "\<And>g. prefix h g \<Longrightarrow> stored g (length ?h3) ws \<Longrightarrow> repr g va v'"
      by auto
    let ?g = "h_set_source_expressions (h_extend (?h3 @ ws) (Suc (length h)) [va])
                 (length h) (Suc (length h))"
    note g = copy_extend2_heap [OF a l, of ?w ws va]
    have "repr ?g (length h + 2) (Value (Lit (PList (split key LOOKUP_SEP))) None)"
      using g(5) by (rule repr.Value)
    with rp [OF g(1) g(2)]
    have "list_all2 (repr ?g) [length h + 2, va]
            [Value (Lit (PList (split key LOOKUP_SEP))) None, v']"
      by simp
    with list_all2_repr_mono [OF xs g(1)]
    have "list_all2 (repr ?g) (xs @ [length h + 2, va])
            (srcs @ [Value (Lit (PList (split key LOOKUP_SEP))) None, v'])"
      by (rule list_all2_appendI)
    with g(3,4) have "srcs_repr ?g (length h)
            (srcs @ [Value (Lit (PList (split key LOOKUP_SEP))) None, v'])"
      unfolding srcs_repr_def by blast
    with g(1) show ?thesis using Inr prep run by (simp add: hret_def)
  qed
qed

lemma JSONSet_as_oracle_prepare_single:
  assumes self: "repr h a (JSONSet srcs f [(key, ve)])"
    and fuel: "wt (JSONSet srcs f [(key, ve)]) < n"
  shows "case oracle_value (JSONSet srcs f [(key, ve)]) ve of
           Inl e \<Rightarrow> refines h (h_JSONSet_as_oracle_prepare n h a) (Inl e)
         | Inr v' \<Rightarrow>
             \<exists>g copy. h_JSONSet_as_oracle_prepare n h a = Some (g, Inr (False, copy))
               \<and> prefix h g \<and> srcs_repr g copy (srcs @ [v'])"
proof -
  from self obtain l d p xs kvs0 where a: "lookup h a = Some (OFunc CJSONSet l f (Some d) p)"
    and l: "lookup h l = Some (OList xs)" and xs: "list_all2 (repr h) xs srcs"
    and d: "lookup h d = Some (ODict kvs0)"
    and kvs0: "list_all2 (\<lambda>kv fe. fst kv = fst fe \<and> repr h (snd kv) (snd fe)) kvs0 [(key, ve)]"
    by (rule repr_lookup_JSONSet)
  from kvs0 obtain x where k0: "kvs0 = [(key, x)]" and x: "repr h x ve"
    by (auto simp: list_all2_Cons2)
  have al: "a < length h" "d < length h" using a d by (auto dest: lookup_Some_length)
  let ?h1 = "h @ [OFunc CJSONSet (Suc (length h)) f (Some d) p, OList xs]"
  have p1: "prefix h ?h1" by simp
  have prep: "h_JSONSet_as_oracle_prepare n h a
      = hbind (h_oracle_value n ?h1 a x) (\<lambda>h2 value'.
          hret (h_set_source_expressions (h_extend h2 (Suc (length h)) [value'])
                  (length h) (Suc (length h))) (False, length h))"
    using a d al k0
    by (simp add: h_JSONSet_as_oracle_prepare_def h_copy_eq [OF a l] h_fields_items_def
        dict_items_def h_get_source_expressions_def lookup_append lookup_Cons)
  note val = h_oracle_value_refine [OF self fuel x p1]
  show ?thesis
  proof (cases "oracle_value (JSONSet srcs f [(key, ve)]) ve")
    case (Inl e)
    with val have "h_oracle_value n ?h1 a x = Some (?h1, Inl e)" by simp
    then show ?thesis using Inl prep p1 by (auto simp: refines_def)
  next
    case (Inr v')
    with val obtain ws va where run: "h_oracle_value n ?h1 a x = Some (?h1 @ ws, Inr va)"
      and rp: "\<And>g. prefix h g \<Longrightarrow> stored g (length ?h1) ws \<Longrightarrow> repr g va v'"
      by auto
    let ?g = "h_set_source_expressions (h_extend (?h1 @ ws) (Suc (length h)) [va])
                 (length h) (Suc (length h))"
    note g = copy_extend_heap [OF a l, of ws "[va]"]
    have "list_all2 (repr ?g) [va] [v']" using rp [OF g(1) g(2)] by simp
    with list_all2_repr_mono [OF xs g(1)]
    have "list_all2 (repr ?g) (xs @ [va]) (srcs @ [v'])" by (rule list_all2_appendI)
    with g(3,4) have "srcs_repr ?g (length h) (srcs @ [v'])"
      unfolding srcs_repr_def by blast
    with g(1) show ?thesis using Inr prep run by (simp add: hret_def)
  qed
qed

lemma JSONRemove_prepare_nil:
  assumes self: "repr h a (JSONRemove srcs [])"
  shows "refines h (h_JSONRemove_as_postgresql_prepare h a) (Inl ValueError)"
    and "refines h (h_JSONRemove_as_oracle_prepare h a) (Inl ValueError)"
proof -
  from self obtain l d xs where a: "lookup h a = Some (OFunc CJSONRemove l None d [])"
    and l: "lookup h l = Some (OList xs)"
    by (rule repr_lookup_JSONRemove)
  have al: "a < length h" using a by (auto dest: lookup_Some_length)
  show "refines h (h_JSONRemove_as_postgresql_prepare h a) (Inl ValueError)"
    and "refines h (h_JSONRemove_as_oracle_prepare h a) (Inl ValueError)"
    using a al
    by (simp_all add: h_JSONRemove_as_postgresql_prepare_def h_JSONRemove_as_oracle_prepare_def
        h_copy_eq [OF a l] h_paths_def lookup_append lookup_Cons refines_def hraise_def)
qed

lemma JSONRemove_prepare_multi:
  assumes self: "repr h a (JSONRemove srcs (path # r # rest))"
  shows "case JSONRemove_init (JSONRemove srcs [path]) (r # rest) of
           Inl e \<Rightarrow> refines h (h_JSONRemove_as_postgresql_prepare h a) (Inl e)
                    \<and> refines h (h_JSONRemove_as_oracle_prepare h a) (Inl e)
         | Inr node_e \<Rightarrow>
             (\<exists>g node. h_JSONRemove_as_postgresql_prepare h a = Some (g, Inr (True, node))
                \<and> prefix h g \<and> repr g node node_e)
             \<and> (\<exists>g node. h_JSONRemove_as_oracle_prepare h a = Some (g, Inr (True, node))
                \<and> prefix h g \<and> repr g node node_e)"
proof -
  from self obtain l d xs where
    a: "lookup h a = Some (OFunc CJSONRemove l None d (path # r # rest))"
    and l: "lookup h l = Some (OList xs)" and xs: "list_all2 (repr h) xs srcs"
    by (rule repr_lookup_JSONRemove)
  have al: "a < length h" using a by (auto dest: lookup_Some_length)
  let ?h1 = "h @ [OFunc CJSONRemove (Suc (length h)) None d (path # r # rest), OList xs]"
  have pg: "h_JSONRemove_as_postgresql_prepare h a
              = h_JSONRemove_wrap ?h1 (length h) path (r # rest)"
    and ora: "h_JSONRemove_as_oracle_prepare h a
              = h_JSONRemove_wrap ?h1 (length h) path (r # rest)"
    using a al
    by (simp_all add: h_JSONRemove_as_postgresql_prepare_def h_JSONRemove_as_oracle_prepare_def
        h_copy_eq [OF a l] h_paths_def lookup_append lookup_Cons)
  from JSONRemove_wrap_refine [OF a l xs, of path "r # rest"] show ?thesis
    unfolding pg ora by (auto split: sum.splits)
qed

lemma JSONRemove_prepare_single:
  assumes self: "repr h a (JSONRemove srcs [path])"
  shows "\<exists>g copy. h_JSONRemove_as_postgresql_prepare h a = Some (g, Inr (False, copy))
           \<and> prefix h g
           \<and> srcs_repr g copy (srcs @ [Value (Lit (PList (split path LOOKUP_SEP))) None])"
    and "\<exists>g copy. h_JSONRemove_as_oracle_prepare h a = Some (g, Inr (False, copy))
           \<and> prefix h g \<and> srcs_repr g copy srcs"
proof -
  from self obtain l d xs where a: "lookup h a = Some (OFunc CJSONRemove l None d [path])"
    and l: "lookup h l = Some (OList xs)" and xs: "list_all2 (repr h) xs srcs"
    by (rule repr_lookup_JSONRemove)
  have al: "a < length h" using a by (auto dest: lookup_Some_length)
  let ?h1 = "h @ [OFunc CJSONRemove (Suc (length h)) None d [path], OList xs]"
  let ?w = "OValue (Lit (PList (split path LOOKUP_SEP))) None"
  let ?g = "h_set_source_expressions (h_extend (?h1 @ [?w]) (Suc (length h)) [length ?h1])
              (length h) (Suc (length h))"
  have prep: "h_JSONRemove_as_postgresql_prepare h a = hret ?g (False, length h)"
    using a al
    by (simp add: h_JSONRemove_as_postgresql_prepare_def h_copy_eq [OF a l] h_paths_def
        h_get_source_expressions_def alloc_def lookup_append lookup_Cons)
  note g = copy_extend_heap [OF a l, of "[?w]" "[length ?h1]"]
  from g(2) have "repr ?g (length ?h1) (Value (Lit (PList (split path LOOKUP_SEP))) None)"
    by (auto simp: stored_Cons intro: repr.Value)
  then have "list_all2 (repr ?g) [length ?h1] [Value (Lit (PList (split path LOOKUP_SEP))) None]"
    by simp
  with list_all2_repr_mono [OF xs g(1)]
  have "list_all2 (repr ?g) (xs @ [length ?h1])
          (srcs @ [Value (Lit (PList (split path LOOKUP_SEP))) None])"
    by (rule list_all2_appendI)
  with g(3,4) have "srcs_repr ?g (length h)
          (srcs @ [Value (Lit (PList (split path LOOKUP_SEP))) None])"
    unfolding srcs_repr_def by blast
  with g(1) prep show "\<exists>g copy. h_JSONRemove_as_postgresql_prepare h a = Some (g, Inr (False, copy))
           \<and> prefix h g
           \<and> srcs_repr g copy (srcs @ [Value (Lit (PList (split path LOOKUP_SEP))) None])"
    by (auto simp: hret_def)
  have prep': "h_JSONRemove_as_oracle_prepare h a = hret ?h1 (False, length h)"
    using a al
    by (simp add: h_JSONRemove_as_oracle_prepare_def h_copy_eq [OF a l] h_paths_def
        lookup_append lookup_Cons)
  have p1: "prefix h ?h1" by simp
  have "srcs_repr ?h1 (length h) srcs"
    unfolding srcs_repr_def
    using list_all2_repr_mono [OF xs p1]
    by (auto simp: lookup_append lookup_Cons intro!: exI [of _ xs])
  with p1 prep' show "\<exists>g copy. h_JSONRemove_as_oracle_prepare h a = Some (g, Inr (False, copy))
           \<and> prefix h g \<and> srcs_repr g copy srcs"
    by (auto simp: hret_def)
qed

lemma repr_lookup: "repr h a e \<Longrightarrow> \<exists>ob. lookup h a = Some ob"
  by (induction rule: repr.induct) auto

lemma jrel_join: "jrel h hj j \<Longrightarrow> h_arg_joiner_join h hj parts = arg_joiner_join j parts"
proof (induction h hj j rule: jrel.induct)
  case (2 h a e)
  then have r: "repr h a e" by simp
  then obtain ob where ob: "lookup h a = Some ob" using repr_lookup by blast
  with repr_join [OF r ob] show ?case by simp
qed simp_all

lemma jrel_mono: "jrel h hj j \<Longrightarrow> prefix h h' \<Longrightarrow> jrel h' hj j"
  by (induction h hj j rule: jrel.induct) (auto intro: repr_mono)

lemma refines_bind:
  assumes r: "refines h r res"
    and k: "\<And>h1 x. prefix h h1 \<Longrightarrow> res = Inr x \<Longrightarrow> refines h1 (k h1 x) (g x)"
  shows "refines h (hbind r k) (case res of Inl e \<Rightarrow> Inl e | Inr x \<Rightarrow> g x)"
proof -
  from r obtain h1 where h1: "r = Some (h1, res)" and p: "prefix h h1"
    by (auto simp: refines_def)
  show ?thesis
  proof (cases res)
    case (Inl e)
    with h1 p show ?thesis by (simp add: refines_def)
  next
    case (Inr x)
    from k [OF p Inr] p have "refines h (k h1 x) (g x)" by (rule refines_prefix [rotated])
    with h1 Inr show ?thesis by simp
  qed
qed

lemma h_compile_all_refine:
  assumes comp: "\<And>h a e. repr h a e \<Longrightarrow> wt e + 3 < n \<Longrightarrow> refines h (compile1 h a) (compile c e)"
  shows "list_all2 (repr h) xs es \<Longrightarrow> wts es < n \<Longrightarrow>
         refines h (h_compile_all compile1 h xs) (compile_all c es)"
proof (induction xs arbitrary: h es)
  case Nil
  then show ?case by simp
next
  case (Cons x xs)
  from Cons.prems(1) obtain e es' where es: "es = e # es'" and x: "repr h x e"
    and xs: "list_all2 (repr h) xs es'"
    by (auto simp: list_all2_Cons1)
  from Cons.prems(2) es have f1: "wt e + 3 < n" and f2: "wts es' < n" by simp_all
  have "refines h (hbind (compile1 h x) (\<lambda>h1 (arg_sql, arg_params).
           hbind (h_compile_all compile1 h1 xs) (\<lambda>h2 (sql_parts, params).
             hret h2 (arg_sql # sql_parts, arg_params @ params))))
         (case compile c e of Inl e \<Rightarrow> Inl e
          | Inr y \<Rightarrow> (case y of (arg_sql, arg_params) \<Rightarrow>
              (case compile_all c es' of Inl e \<Rightarrow> Inl e
               | Inr z \<Rightarrow> (case z of (sql_parts, params) \<Rightarrow>
                   Inr (arg_sql # sql_parts, arg_params @ params)))))"
  proof (rule refines_bind [OF comp [OF x f1]])
    fix h1 :: heap and y :: sql
    assume p: "prefix h h1"
    obtain arg_sql arg_params where y: "y = (arg_sql, arg_params)" by (cases y)
    have "refines h1 (hbind (h_compile_all compile1 h1 xs) (\<lambda>h2 (sql_parts, params).
             hret h2 (arg_sql # sql_parts, arg_params @ params)))
           (case compile_all c es' of Inl e \<Rightarrow> Inl e
            | Inr z \<Rightarrow> (case z of (sql_parts, params) \<Rightarrow>
                Inr (arg_sql # sql_parts, arg_params @ params)))"
    proof (rule refines_bind [OF Cons.IH [OF list_all2_repr_mono [OF xs p] f2]])
      fix h2 :: heap and z :: "string list \<times> param list"
      show "refines h2 (case z of (sql_parts, params) \<Rightarrow>
                hret h2 (arg_sql # sql_parts, arg_params @ params))
              (case z of (sql_parts, params) \<Rightarrow>
                Inr (arg_sql # sql_parts, arg_params @ params))"
        by (cases z) simp
    qed
    then show "refines h1 (case y of (arg_sql, arg_params) \<Rightarrow>
           hbind (h_compile_all compile1 h1 xs) (\<lambda>h2 (sql_parts, params).
             hret h2 (arg_sql # sql_parts, arg_params @ params)))
         (case y of (arg_sql, arg_params) \<Rightarrow>
              (case compile_all c es' of Inl e \<Rightarrow> Inl e
               | Inr z \<Rightarrow> (case z of (sql_parts, params) \<Rightarrow>
                   Inr (arg_sql # sql_parts, arg_params @ params))))"
      using y by simp
  qed
  then show ?case using es by simp
qed

lemma Func_as_sql_step:
  assumes comp: "\<And>h a e. repr h a e \<Longrightarrow> wt e + 3 < n \<Longrightarrow> refines h (m_compile m h a) (compile c e)"
    and srcs: "srcs_repr h a es" and j: "jrel h hj j" and fuel: "wts es < n"
  shows "refines h (h_Func_as_sql_body m h a fn t hj) (Func_as_sql c es fn t j)"
proof -
  from srcs obtain k l outf d p xs where a: "lookup h a = Some (OFunc k l outf d p)"
    and l: "lookup h l = Some (OList xs)" and xs: "list_all2 (repr h) xs es"
    unfolding srcs_repr_def by blast
  have body: "h_Func_as_sql_body m h a fn t hj
      = hbind (h_compile_all (m_compile m) h xs) (\<lambda>h1 (sql_parts, params).
          case h_arg_joiner_join h1 hj sql_parts of
            Inl e \<Rightarrow> hraise h1 e
          | Inr expressions \<Rightarrow> hret h1 (render t fn expressions, params))"
    using a l by (simp add: h_Func_as_sql_body_def h_get_source_expressions_def list_items_def)
  have "refines h (hbind (h_compile_all (m_compile m) h xs) (\<lambda>h1 (sql_parts, params).
          case h_arg_joiner_join h1 hj sql_parts of
            Inl e \<Rightarrow> hraise h1 e
          | Inr expressions \<Rightarrow> hret h1 (render t fn expressions, params)))
        (case compile_all c es of Inl e \<Rightarrow> Inl e
         | Inr y \<Rightarrow> (case y of (sql_parts, params) \<Rightarrow>
             (case arg_joiner_join j sql_parts of
                Inl e \<Rightarrow> Inl e
              | Inr expressions \<Rightarrow> Inr (render t fn expressions, params))))"
  proof (rule refines_bind [OF h_compile_all_refine [of n "m_compile m" c, OF comp xs fuel]])
    fix h1 :: heap and y :: "string list \<times> param list"
    assume p: "prefix h h1"
    obtain sql_parts params where y: "y = (sql_parts, params)" by (cases y)
    have "h_arg_joiner_join h1 hj sql_parts = arg_joiner_join j sql_parts"
      using jrel_mono [OF j p] by (rule jrel_join)
    then show "refines h1 (case y of (sql_parts, params) \<Rightarrow>
          case h_arg_joiner_join h1 hj sql_parts of
            Inl e \<Rightarrow> hraise h1 e
          | Inr expressions \<Rightarrow> hret h1 (render t fn expressions, params))
        (case y of (sql_parts, params) \<Rightarrow>
             (case arg_joiner_join j sql_parts of
                Inl e \<Rightarrow> Inl e
              | Inr expressions \<Rightarrow> Inr (render t fn expressions, params)))"
      using y by (simp split: sum.splits)
  qed
  then show ?thesis unfolding body by simp
qed

lemma refines_error:
  assumes "refines h r (Inl e)"
  shows "refines h (hbind r k) (Inl e)"
  using assms by (auto simp: refines_def)

lemma repr_srcs_Cast: "repr h a (Cast e f) \<Longrightarrow> srcs_repr h a [e]"
  by (erule repr_CastE) (auto simp: srcs_repr_def)

lemma repr_srcs_ToJSONB: "repr h a (ToJSONB e f) \<Longrightarrow> srcs_repr h a [e]"
  by (erule repr_ToJSONBE) (auto simp: srcs_repr_def)

lemma repr_srcs_JSONObject: "repr h a (JSONObject srcs) \<Longrightarrow> srcs_repr h a srcs"
  by (erule repr_JSONObjectE) (auto simp: srcs_repr_def)

lemma jstr: "jrel h (HJStr sep) (JStr sep)"
  by simp

lemma as_sql_step:
  assumes func: "\<And>h a es fn t hj j. srcs_repr h a es \<Longrightarrow> jrel h hj j \<Longrightarrow> wts es + 1 < n \<Longrightarrow>
                   refines h (m_Func_as_sql m h a fn t hj) (Func_as_sql c es fn t j)"
    and self: "repr h a e" and j: "jrel_opt h hjo jo"
    and fuel: "(case e of JSONObject xs \<Rightarrow> wts xs + 2 | _ \<Rightarrow> wt e + 1) < Suc n"
  shows "refines h (h_as_sql_body c n m h a t hjo) (as_sql c e t jo)"
proof (cases e)
  case (Lit v)
  with self show ?thesis by (auto elim!: repr_LitE simp: h_as_sql_body_def)
next
  case (F name)
  with self show ?thesis by (auto elim!: repr_FE simp: h_as_sql_body_def)
next
  case (Col name f)
  with self show ?thesis by (auto elim!: repr_ColE simp: h_as_sql_body_def)
next
  case (Value v f)
  with self show ?thesis by (auto elim!: repr_ValueE simp: h_as_sql_body_def)
next
  case (Cast e' f)
  from self Cast obtain l d p where a: "lookup h a = Some (OFunc CCast l (Some f) d p)"
    by (auto elim!: repr_CastE)
  have s: "srcs_repr h a [e']" using self Cast by (auto intro: repr_srcs_Cast)
  have fl: "wts [e'] + 1 < n" using fuel Cast by simp
  have body: "h_as_sql_body c n m h a t hjo = m_Func_as_sql m h a (Some ''CAST'')
          [TFunction, TText ''('', TExpressions, TText ('' AS '' @ db_type f @ '')'')]
          (HJStr '', '')"
    using a by (simp add: h_as_sql_body_def)
  have pure: "as_sql c e t jo = Func_as_sql c [e'] (Some ''CAST'')
          [TFunction, TText ''('', TExpressions, TText ('' AS '' @ db_type f @ '')'')]
          (JStr '', '')"
    unfolding Cast by simp
  show ?thesis unfolding body pure by (rule func [OF s jstr fl])
next
  case (ToJSONB e' f)
  from self ToJSONB obtain l d p where a: "lookup h a = Some (OFunc CToJSONB l f d p)"
    by (auto elim!: repr_ToJSONBE)
  have s: "srcs_repr h a [e']" using self ToJSONB by (auto intro: repr_srcs_ToJSONB)
  have fl: "wts [e'] + 1 < n" using fuel ToJSONB by simp
  have body: "h_as_sql_body c n m h a t hjo = m_Func_as_sql m h a (Some ''TO_JSONB'') default_template (HJStr '', '')"
    using a by (simp add: h_as_sql_body_def)
  have pure: "as_sql c e t jo = Func_as_sql c [e'] (Some ''TO_JSONB'') default_template (JStr '', '')"
    unfolding ToJSONB by simp
  show ?thesis unfolding body pure by (rule func [OF s jstr fl])
next
  case (JSONObject srcs)
  from self JSONObject obtain l outf d p where a: "lookup h a = Some (OFunc CJSONObject l outf d p)"
    by (auto elim!: repr_JSONObjectE)
  have s: "srcs_repr h a srcs" using self JSONObject by (auto intro: repr_srcs_JSONObject)
  have f: "wts srcs + 1 < n" using fuel JSONObject by simp
  have jj: "jrel h (case hjo of None \<Rightarrow> HJStr '', '' | Some j \<Rightarrow> j)
                   (case jo of None \<Rightarrow> JStr '', '' | Some j \<Rightarrow> j)"
    using j by (auto simp: jrel_opt_def split: option.splits)
  have hf: "has_json_object_function (features c) \<Longrightarrow>
      h_as_sql_body c n m h a t hjo
        = m_Func_as_sql m h a (Some ''JSON_OBJECT'')
            (case t of None \<Rightarrow> default_template | Some t \<Rightarrow> t)
            (case hjo of None \<Rightarrow> HJStr '', '' | Some j \<Rightarrow> j)"
    using a by (simp add: h_as_sql_body_def)
  have nf: "\<not> has_json_object_function (features c) \<Longrightarrow>
      h_as_sql_body c n m h a t hjo = hraise h NotSupportedError"
    using a by (simp add: h_as_sql_body_def)
  show ?thesis
  proof (cases "has_json_object_function (features c)")
    case True
    have pure: "as_sql c e t jo = Func_as_sql c srcs (Some ''JSON_OBJECT'')
            (case t of None \<Rightarrow> default_template | Some t \<Rightarrow> t)
            (case jo of None \<Rightarrow> JStr '', '' | Some j \<Rightarrow> j)"
      unfolding JSONObject using True by simp
    show ?thesis unfolding hf [OF True] pure by (rule func [OF s jj f])
  next
    case False
    have pure: "as_sql c e t jo = Inl NotSupportedError"
      unfolding JSONObject using False by simp
    show ?thesis unfolding nf [OF False] pure by (rule refines_hraise)
  qed
next
  case (JSONSet srcs f flds)
  from self JSONSet obtain l d p where a: "lookup h a = Some (OFunc CJSONSet l f (Some d) p)"
    by (auto elim!: repr_JSONSetE)
  show ?thesis
  proof (cases "supports_partial_json_update (features c)")
    case False
    have body: "h_as_sql_body c n m h a t hjo = hraise h NotSupportedError"
      using a False by (simp add: h_as_sql_body_def)
    have pure: "as_sql c e t jo = Inl NotSupportedError"
      unfolding JSONSet using False by simp
    show ?thesis unfolding body pure by (rule refines_hraise)
  next
    case True
    have fl: "wt (JSONSet srcs f flds) < n" using fuel JSONSet by simp
    note prep = JSONSet_as_sql_prepare_refine [OF self [unfolded JSONSet] fl]
    have body: "h_as_sql_body c n m h a t hjo
        = hbind (h_JSONSet_as_sql_prepare n h a) (\<lambda>h1 copy.
            m_Func_as_sql m h1 copy (Some ''JSON_SET'') default_template (HJStr '', ''))"
      using a True by (simp add: h_as_sql_body_def)
    show ?thesis
    proof (cases "set_items (JSONSet srcs f flds) flds")
      case (Inl err)
      with prep have r: "refines h (h_JSONSet_as_sql_prepare n h a) (Inl err)" by simp
      have pure: "as_sql c e t jo = Inl err"
        unfolding JSONSet using Inl True by simp
      show ?thesis unfolding body pure using r by (rule refines_error)
    next
      case (Inr new)
      with prep obtain h' copy where run: "h_JSONSet_as_sql_prepare n h a = Some (h', Inr copy)"
        and p: "prefix h h'" and s: "srcs_repr h' copy (srcs @ new)"
        by auto
      have f2: "wts (srcs @ new) + 1 < n"
        using wts_set_items [OF Inr] fl by (simp add: wts_alt)
      have pure: "as_sql c e t jo
          = Func_as_sql c (srcs @ new) (Some ''JSON_SET'') default_template (JStr '', '')"
        unfolding JSONSet using Inr True by simp
      have "refines h' (m_Func_as_sql m h' copy (Some ''JSON_SET'') default_template
                          (HJStr '', ''))
              (as_sql c e t jo)"
        unfolding pure by (rule func [OF s jstr f2])
      then show ?thesis unfolding body run hbind_simps using p by (rule refines_prefix [rotated])
    qed
  qed
next
  case (JSONRemove srcs paths)
  from self JSONRemove obtain l d where a: "lookup h a = Some (OFunc CJSONRemove l None d paths)"
    by (auto elim!: repr_JSONRemoveE)
  show ?thesis
  proof (cases "supports_partial_json_update (features c)")
    case False
    have body: "h_as_sql_body c n m h a t hjo = hraise h NotSupportedError"
      using a False by (simp add: h_as_sql_body_def)
    have pure: "as_sql c e t jo = Inl NotSupportedError"
      unfolding JSONRemove using False by simp
    show ?thesis unfolding body pure by (rule refines_hraise)
  next
    case True
    let ?new = "map (\<lambda>path. Value (Lit (PStr (compile_json_path (split path LOOKUP_SEP)))) None)
                  paths"
    from JSONRemove_as_sql_prepare_refine [OF self [unfolded JSONRemove]]
    obtain h' copy where run: "h_JSONRemove_as_sql_prepare h a = Some (h', Inr copy)"
      and p: "prefix h h'" and s: "srcs_repr h' copy (srcs @ ?new)"
      by auto
    have body: "h_as_sql_body c n m h a t hjo
        = hbind (h_JSONRemove_as_sql_prepare h a) (\<lambda>h1 copy.
            m_Func_as_sql m h1 copy (Some ''JSON_REMOVE'') default_template (HJStr '', ''))"
      using a True by (simp add: h_as_sql_body_def)
    have f2: "wts (srcs @ ?new) + 1 < n"
      using fuel JSONRemove by (simp add: wts_alt wts_map_Value)
    have pure: "as_sql c e t jo
        = Func_as_sql c (srcs @ ?new) (Some ''JSON_REMOVE'') default_template (JStr '', '')"
      unfolding JSONRemove using True by simp
    have "refines h' (m_Func_as_sql m h' copy (Some ''JSON_REMOVE'') default_template
                        (HJStr '', ''))
            (as_sql c e t jo)"
      unfolding pure by (rule func [OF s jstr f2])
    then show ?thesis unfolding body run hbind_simps using p by (rule refines_prefix [rotated])
  qed
qed

lemma as_native_step:
  assumes sql: "\<And>h a e t hjo jo. repr h a e \<Longrightarrow> jrel_opt h hjo jo \<Longrightarrow>
                   (case e of JSONObject xs \<Rightarrow> wts xs + 2 | _ \<Rightarrow> wt e + 1) < n \<Longrightarrow>
                   refines h (m_as_sql m h a t hjo) (as_sql c e t jo)"
    and self: "repr h a (JSONObject srcs)" and fuel: "wts srcs + 2 < n"
  shows "refines h (h_as_native_body m h a returning) (as_native c (JSONObject srcs) returning)"
proof -
  from self obtain l outf d p where a: "lookup h a = Some (OFunc CJSONObject l outf d p)"
    by (auto elim!: repr_JSONObjectE)
  have j: "jrel_opt h (Some (HJObj a)) (Some (JObj (JSONObject srcs)))"
    using self by (simp add: jrel_opt_def)
  have f: "(case JSONObject srcs of JSONObject xs \<Rightarrow> wts xs + 2 | _ \<Rightarrow> wt (JSONObject srcs) + 1)
             < n"
    using fuel by simp
  have body: "h_as_native_body m h a returning
      = m_as_sql m h a
          (Some [TFunction, TText ''('', TExpressions,
                 TText ('' RETURNING '' @ returning @ '')'')])
          (Some (HJObj a))"
    using a by (simp add: h_as_native_body_def)
  show ?thesis unfolding body as_native.simps by (rule sql [OF self j f])
qed

lemma repr_not_builder:
  assumes "repr h a e" and "\<not> has_vendor_impl e"
  shows "(\<exists>v. lookup h a = Some (OLit v)) \<or> (\<exists>name. lookup h a = Some (OF name))
         \<or> (\<exists>name f. lookup h a = Some (OCol name f))
         \<or> (\<exists>v f. lookup h a = Some (OValue v f))
         \<or> (\<exists>l outf d p. lookup h a = Some (OFunc CCast l outf d p))
         \<or> (\<exists>l outf d p. lookup h a = Some (OFunc CToJSONB l outf d p))"
  using assms by (induction rule: repr.induct) auto

lemma as_postgresql_step:
  assumes func: "\<And>h a es fn t hj j. srcs_repr h a es \<Longrightarrow> jrel h hj j \<Longrightarrow> wts es + 1 < n \<Longrightarrow>
                   refines h (m_Func_as_sql m h a fn t hj) (Func_as_sql c es fn t j)"
    and native: "\<And>h a xs r. repr h a (JSONObject xs) \<Longrightarrow> wts xs + 3 < n \<Longrightarrow>
                   refines h (m_as_native m h a r) (as_native c (JSONObject xs) r)"
    and pg: "\<And>h a e. repr h a e \<Longrightarrow> wt e + 2 < n \<Longrightarrow>
                   refines h (m_as_postgresql m h a) (as_postgresql c e)"
    and self: "repr h a e" and fuel: "wt e + 2 < Suc n"
  shows "refines h (h_as_postgresql_body c n m h a) (as_postgresql c e)"
proof (cases "has_vendor_impl e")
  case False
  from repr_not_builder [OF self False]
  have body: "h_as_postgresql_body c n m h a = hraise h AttributeError"
    by (auto simp: h_as_postgresql_body_def)
  have pure: "as_postgresql c e = Inl AttributeError"
    using False by (cases e) simp_all
  show ?thesis unfolding body pure by (rule refines_hraise)
next
  case True
  then consider (JSONObject) srcs where "e = JSONObject srcs"
    | (JSONSet) srcs f flds where "e = JSONSet srcs f flds"
    | (JSONRemove) srcs paths where "e = JSONRemove srcs paths"
    by (cases e) simp_all
  then show ?thesis
  proof cases
    case JSONObject
    from self JSONObject obtain l outf d p where
      a: "lookup h a = Some (OFunc CJSONObject l outf d p)"
      by (auto elim!: repr_JSONObjectE)
    from JSONObject_as_postgresql_prepare_refine [OF self [unfolded JSONObject]]
    obtain h' copy where run: "h_JSONObject_as_postgresql_prepare h a = Some (h', Inr copy)"
      and p: "prefix h h'" and r: "repr h' copy (JSONObject (cast_keys srcs))"
      by auto
    have fl: "wts (cast_keys srcs) + 3 < n"
      using fuel JSONObject wts_cast_keys [of srcs] by simp
    show ?thesis
    proof (cases "is_postgresql_16 (features c)")
      case True
      have body: "h_as_postgresql_body c n m h a = m_as_native m h' copy ''JSONB''"
        using a True run by (simp add: h_as_postgresql_body_def)
      have pure: "as_postgresql c e = as_native c (JSONObject (cast_keys srcs)) ''JSONB''"
        unfolding JSONObject using True by simp
      show ?thesis unfolding body pure using p native [OF r fl] by (rule refines_prefix)
    next
      case False
      have body: "h_as_postgresql_body c n m h a
          = m_Func_as_sql m h' copy (Some ''JSONB_BUILD_OBJECT'') default_template (HJStr '', '')"
        using a False run by (simp add: h_as_postgresql_body_def)
      have pure: "as_postgresql c e
          = Func_as_sql c (cast_keys srcs) (Some ''JSONB_BUILD_OBJECT'') default_template
              (JStr '', '')"
        unfolding JSONObject using False by simp
      have f2: "wts (cast_keys srcs) + 1 < n" using fl by simp
      show ?thesis unfolding body pure
        using p func [OF repr_srcs_JSONObject [OF r] jstr f2] by (rule refines_prefix)
    qed
  next
    case (JSONSet srcs f flds)
    from self JSONSet obtain l d p where a: "lookup h a = Some (OFunc CJSONSet l f (Some d) p)"
      by (auto elim!: repr_JSONSetE)
    have body: "h_as_postgresql_body c n m h a
        = hbind (h_JSONSet_as_postgresql_prepare n h a) (\<lambda>h1 (recurse, node).
            if recurse then m_as_postgresql m h1 node
            else m_Func_as_sql m h1 node (Some ''JSONB_SET'') default_template (HJStr '', ''))"
      using a by (simp add: h_as_postgresql_body_def)
    show ?thesis
    proof (cases flds)
      case Nil
      have pure: "as_postgresql c e = Inl IndexError" unfolding JSONSet Nil by simp
      show ?thesis unfolding body pure
        using JSONSet_as_postgresql_prepare_nil(1) [OF self [unfolded JSONSet Nil]]
        by (rule refines_error)
    next
      case (Cons kv rest)
      obtain key ve where kv: "kv = (key, ve)" by (cases kv)
      show ?thesis
      proof (cases rest)
        case Nil
        note e = JSONSet [unfolded Cons kv Nil]
        have fl: "wt (JSONSet srcs f [(key, ve)]) < n" using fuel e by simp
        note prep = JSONSet_as_postgresql_prepare_single [OF self [unfolded e] fl]
        show ?thesis
        proof (cases "pg_value (JSONSet srcs f [(key, ve)]) ve")
          case (Inl err)
          with prep have r: "refines h (h_JSONSet_as_postgresql_prepare n h a) (Inl err)" by simp
          have pure: "as_postgresql c e = Inl err" unfolding e using Inl by simp
          show ?thesis unfolding body pure using r by (rule refines_error)
        next
          case (Inr v')
          with prep obtain g copy where
            run: "h_JSONSet_as_postgresql_prepare n h a = Some (g, Inr (False, copy))"
            and p: "prefix h g"
            and s: "srcs_repr g copy (srcs @ [Value (Lit (PList (split key LOOKUP_SEP))) None, v'])"
            by auto
          have f2: "wts (srcs @ [Value (Lit (PList (split key LOOKUP_SEP))) None, v']) + 1 < n"
            using fl wt_pg_value [OF Inr] by (simp add: wts_alt)
          have pure: "as_postgresql c e
              = Func_as_sql c (srcs @ [Value (Lit (PList (split key LOOKUP_SEP))) None, v'])
                  (Some ''JSONB_SET'') default_template (JStr '', '')"
            unfolding e using Inr by simp
          show ?thesis unfolding body pure run hbind_simps prod.case if_False
            using p func [OF s jstr f2] by (rule refines_prefix)
        qed
      next
        case (Cons r rest')
        note e = JSONSet [unfolded \<open>flds = kv # rest\<close> kv Cons]
        note prep = JSONSet_prepare_multi [OF self [unfolded e], of n]
        show ?thesis
        proof (cases "JSONSet_init (JSONSet srcs f [(key, ve)]) None (dict (r # rest'))")
          case (Inl err)
          with prep have r: "refines h (h_JSONSet_as_postgresql_prepare n h a) (Inl err)" by simp
          have pure: "as_postgresql c e = Inl err" unfolding e using Inl by simp
          show ?thesis unfolding body pure using r by (rule refines_error)
        next
          case (Inr node_e)
          with prep obtain g node where
            run: "h_JSONSet_as_postgresql_prepare n h a = Some (g, Inr (True, node))"
            and p: "prefix h g" and rn: "repr g node node_e"
            by auto
          have f2: "wt node_e + 2 < n"
            using wt_JSONSet_step [OF Inr] fuel e by simp
          have pure: "as_postgresql c e = as_postgresql c node_e"
            unfolding e using Inr by simp
          show ?thesis unfolding body pure run hbind_simps prod.case if_True
            using p pg [OF rn f2] by (rule refines_prefix)
        qed
      qed
    qed
  next
    case (JSONRemove srcs paths)
    from self JSONRemove obtain l d where a: "lookup h a = Some (OFunc CJSONRemove l None d paths)"
      by (auto elim!: repr_JSONRemoveE)
    have body: "h_as_postgresql_body c n m h a
        = hbind (h_JSONRemove_as_postgresql_prepare h a) (\<lambda>h1 (recurse, node).
            if recurse then m_as_postgresql m h1 node
            else m_Func_as_sql m h1 node None [TExpressions] (HJStr ''#- ''))"
      using a by (simp add: h_as_postgresql_body_def)
    show ?thesis
    proof (cases paths)
      case Nil
      have pure: "as_postgresql c e = Inl ValueError" unfolding JSONRemove Nil by simp
      show ?thesis unfolding body pure
        using JSONRemove_prepare_nil(1) [OF self [unfolded JSONRemove Nil]]
        by (rule refines_error)
    next
      case (Cons path rest)
      show ?thesis
      proof (cases rest)
        case Nil
        note e = JSONRemove [unfolded Cons Nil]
        from JSONRemove_prepare_single(1) [OF self [unfolded e]] obtain g copy where
          run: "h_JSONRemove_as_postgresql_prepare h a = Some (g, Inr (False, copy))"
          and p: "prefix h g"
          and s: "srcs_repr g copy (srcs @ [Value (Lit (PList (split path LOOKUP_SEP))) None])"
          by auto
        have f2: "wts (srcs @ [Value (Lit (PList (split path LOOKUP_SEP))) None]) + 1 < n"
          using fuel e by (simp add: wts_alt)
        have pure: "as_postgresql c e
            = Func_as_sql c (srcs @ [Value (Lit (PList (split path LOOKUP_SEP))) None])
                None [TExpressions] (JStr ''#- '')"
          unfolding e by simp
        show ?thesis unfolding body pure run hbind_simps prod.case if_False
          using p func [OF s jstr f2] by (rule refines_prefix)
      next
        case (Cons r rest')
        note e = JSONRemove [unfolded \<open>paths = path # rest\<close> Cons]
        note prep = JSONRemove_prepare_multi [OF self [unfolded e]]
        show ?thesis
        proof (cases "JSONRemove_init (JSONRemove srcs [path]) (r # rest')")
          case (Inl err)
          with prep have r: "refines h (h_JSONRemove_as_postgresql_prepare h a) (Inl err)" by simp
          have pure: "as_postgresql c e = Inl err" unfolding e using Inl by simp
          show ?thesis unfolding body pure using r by (rule refines_error)
        next
          case (Inr node_e)
          with prep obtain g node where
            run: "h_JSONRemove_as_postgresql_prepare h a = Some (g, Inr (True, node))"
            and p: "prefix h g" and rn: "repr g node node_e"
            by auto
          have f2: "wt node_e + 2 < n"
            using wt_JSONRemove_step [OF Inr] fuel e by simp
          have pure: "as_postgresql c e = as_postgresql c node_e"
            unfolding e using Inr by simp
          show ?thesis unfolding body pure run hbind_simps prod.case if_True
            using p pg [OF rn f2] by (rule refines_prefix)
        qed
      qed
    qed
  qed
qed

lemma as_oracle_step:
  assumes func: "\<And>h a es fn t hj j. srcs_repr h a es \<Longrightarrow> jrel h hj j \<Longrightarrow> wts es + 1 < n \<Longrightarrow>
                   refines h (m_Func_as_sql m h a fn t hj) (Func_as_sql c es fn t j)"
    and native: "\<And>h a xs r. repr h a (JSONObject xs) \<Longrightarrow> wts xs + 3 < n \<Longrightarrow>
                   refines h (m_as_native m h a r) (as_native c (JSONObject xs) r)"
    and ora: "\<And>h a e. repr h a e \<Longrightarrow> wt e + 2 < n \<Longrightarrow>
                   refines h (m_as_oracle m h a) (as_oracle c e)"
    and self: "repr h a e" and fuel: "wt e + 2 < Suc n"
  shows "refines h (h_as_oracle_body c n m h a) (as_oracle c e)"
proof (cases "has_vendor_impl e")
  case False
  from repr_not_builder [OF self False]
  have body: "h_as_oracle_body c n m h a = hraise h AttributeError"
    by (auto simp: h_as_oracle_body_def)
  have pure: "as_oracle c e = Inl AttributeError"
    using False by (cases e) simp_all
  show ?thesis unfolding body pure by (rule refines_hraise)
next
  case True
  then consider (JSONObject) srcs where "e = JSONObject srcs"
    | (JSONSet) srcs f flds where "e = JSONSet srcs f flds"
    | (JSONRemove) srcs paths where "e = JSONRemove srcs paths"
    by (cases e) simp_all
  then show ?thesis
  proof cases
    case JSONObject
    from self JSONObject obtain l outf d p where
      a: "lookup h a = Some (OFunc CJSONObject l outf d p)"
      by (auto elim!: repr_JSONObjectE)
    have fl: "wts srcs + 3 < n" using fuel JSONObject wts_le [of srcs] by simp
    have body: "h_as_oracle_body c n m h a = m_as_native m h a ''CLOB''"
      using a by (simp add: h_as_oracle_body_def)
    have pure: "as_oracle c e = as_native c (JSONObject srcs) ''CLOB''"
      unfolding JSONObject by simp
    show ?thesis unfolding body pure by (rule native [OF self [unfolded JSONObject] fl])
  next
    case (JSONSet srcs f flds)
    from self JSONSet obtain l d p where a: "lookup h a = Some (OFunc CJSONSet l f (Some d) p)"
      by (auto elim!: repr_JSONSetE)
    show ?thesis
    proof (cases "supports_partial_json_update (features c)")
      case False
      have body: "h_as_oracle_body c n m h a = hraise h NotSupportedError"
        using a False by (simp add: h_as_oracle_body_def)
      have pure: "as_oracle c e = Inl NotSupportedError"
        unfolding JSONSet using False by simp
      show ?thesis unfolding body pure by (rule refines_hraise)
    next
      case flag: True
      have body: "h_as_oracle_body c n m h a
          = hbind (h_JSONSet_as_oracle_prepare n h a) (\<lambda>h1 (recurse, node).
              if recurse then m_as_oracle m h1 node
              else m_Func_as_sql m h1 node (Some ''JSON_TRANSFORM'') default_template (HJObj a))"
        using a flag by (simp add: h_as_oracle_body_def)
      show ?thesis
      proof (cases flds)
        case Nil
        have pure: "as_oracle c e = Inl IndexError" unfolding JSONSet Nil using flag by simp
        show ?thesis unfolding body pure
          using JSONSet_as_postgresql_prepare_nil(2) [OF self [unfolded JSONSet Nil]]
          by (rule refines_error)
      next
        case (Cons kv rest)
        obtain key ve where kv: "kv = (key, ve)" by (cases kv)
        show ?thesis
        proof (cases rest)
          case Nil
          note e = JSONSet [unfolded Cons kv Nil]
          have fl: "wt (JSONSet srcs f [(key, ve)]) < n" using fuel e by simp
          note prep = JSONSet_as_oracle_prepare_single [OF self [unfolded e] fl]
          show ?thesis
          proof (cases "oracle_value (JSONSet srcs f [(key, ve)]) ve")
            case (Inl err)
            with prep have r: "refines h (h_JSONSet_as_oracle_prepare n h a) (Inl err)" by simp
            have pure: "as_oracle c e = Inl err" unfolding e using Inl flag by simp
            show ?thesis unfolding body pure using r by (rule refines_error)
          next
            case (Inr v')
            with prep obtain g copy where
              run: "h_JSONSet_as_oracle_prepare n h a = Some (g, Inr (False, copy))"
              and p: "prefix h g" and s: "srcs_repr g copy (srcs @ [v'])"
              by auto
            have f2: "wts (srcs @ [v']) + 1 < n"
              using fl wt_oracle_value [OF Inr] by (simp add: wts_alt)
            have pure: "as_oracle c e
                = Func_as_sql c (srcs @ [v']) (Some ''JSON_TRANSFORM'') default_template
                    (JObj (JSONSet srcs f [(key, ve)]))"
              unfolding e using Inr flag by simp
            have j: "jrel g (HJObj a) (JObj (JSONSet srcs f [(key, ve)]))"
              using repr_mono [OF self [unfolded e] p] by simp
            show ?thesis unfolding body pure run hbind_simps prod.case if_False
              using p func [OF s j f2] by (rule refines_prefix)
          qed
        next
          case (Cons r rest')
          note e = JSONSet [unfolded \<open>flds = kv # rest\<close> kv Cons]
          note prep = JSONSet_prepare_multi [OF self [unfolded e], of n]
          show ?thesis
          proof (cases "JSONSet_init (JSONSet srcs f [(key, ve)]) None (dict (r # rest'))")
            case (Inl err)
            with prep have r: "refines h (h_JSONSet_as_oracle_prepare n h a) (Inl err)" by simp
            have pure: "as_oracle c e = Inl err" unfolding e using Inl flag by simp
            show ?thesis unfolding body pure using r by (rule refines_error)
          next
            case (Inr node_e)
            with prep obtain g node where
              run: "h_JSONSet_as_oracle_prepare n h a = Some (g, Inr (True, node))"
              and p: "prefix h g" and rn: "repr g node node_e"
              by auto
            have f2: "wt node_e + 2 < n"
              using wt_JSONSet_step [OF Inr] fuel e by simp
            have pure: "as_oracle c e = as_oracle c node_e"
              unfolding e using Inr flag by simp
            show ?thesis unfolding body pure run hbind_simps prod.case if_True
              using p ora [OF rn f2] by (rule refines_prefix)
          qed
        qed
      qed
    qed
  next
    case (JSONRemove srcs paths)
    from self JSONRemove obtain l d where a: "lookup h a = Some (OFunc CJSONRemove l None d paths)"
      by (auto elim!: repr_JSONRemoveE)
    show ?thesis
    proof (cases "supports_partial_json_update (features c)")
      case False
      have body: "h_as_oracle_body c n m h a = hraise h NotSupportedError"
        using a False by (simp add: h_as_oracle_body_def)
      have pure: "as_oracle c e = Inl NotSupportedError"
        unfolding JSONRemove using False by simp
      show ?thesis unfolding body pure by (rule refines_hraise)
    next
      case flag: True
      have body: "h_as_oracle_body c n m h a
          = hbind (h_JSONRemove_as_oracle_prepare h a) (\<lambda>h1 (recurse, node).
              if recurse then m_as_oracle m h1 node
              else m_Func_as_sql m h1 node (Some ''JSON_TRANSFORM'') default_template (HJObj a))"
        using a flag by (simp add: h_as_oracle_body_def)
      show ?thesis
      proof (cases paths)
        case Nil
        have pure: "as_oracle c e = Inl ValueError" unfolding JSONRemove Nil using flag by simp
        show ?thesis unfolding body pure
          using JSONRemove_prepare_nil(2) [OF self [unfolded JSONRemove Nil]]
          by (rule refines_error)
      next
        case (Cons path rest)
        show ?thesis
        proof (cases rest)
          case Nil
          note e = JSONRemove [unfolded Cons Nil]
          from JSONRemove_prepare_single(2) [OF self [unfolded e]] obtain g copy where
            run: "h_JSONRemove_as_oracle_prepare h a = Some (g, Inr (False, copy))"
            and p: "prefix h g" and s: "srcs_repr g copy srcs"
            by auto
          have f2: "wts srcs + 1 < n" using fuel e by (simp add: wts_alt)
          have pure: "as_oracle c e
              = Func_as_sql c srcs (Some ''JSON_TRANSFORM'') default_template
                  (JObj (JSONRemove srcs [path]))"
            unfolding e using flag by simp
          have j: "jrel g (HJObj a) (JObj (JSONRemove srcs [path]))"
            using repr_mono [OF self [unfolded e] p] by simp
          show ?thesis unfolding body pure run hbind_simps prod.case if_False
            using p func [OF s j f2] by (rule refines_prefix)
        next
          case (Cons r rest')
          note e = JSONRemove [unfolded \<open>paths = path # rest\<close> Cons]
          note prep = JSONRemove_prepare_multi [OF self [unfolded e]]
          show ?thesis
          proof (cases "JSONRemove_init (JSONRemove srcs [path]) (r # rest')")
            case (Inl err)
            with prep have r: "refines h (h_JSONRemove_as_oracle_prepare h a) (Inl err)" by simp
            have pure: "as_oracle c e = Inl err" unfolding e using Inl flag by simp
            show ?thesis unfolding body pure using r by (rule refines_error)
          next
            case (Inr node_e)
            with prep obtain g node where
              run: "h_JSONRemove_as_oracle_prepare h a = Some (g, Inr (True, node))"
              and p: "prefix h g" and rn: "repr g node node_e"
              by auto
            have f2: "wt node_e + 2 < n"
              using wt_JSONRemove_step [OF Inr] fuel e by simp
            have pure: "as_oracle c e = as_oracle c node_e"
              unfolding e using Inr flag by simp
            show ?thesis unfolding body pure run hbind_simps prod.case if_True
              using p ora [OF rn f2] by (rule refines_prefix)
          qed
        qed
      qed
    qed
  qed
qed

lemma compile_step:
  assumes sql: "\<And>h a e t hjo jo. repr h a e \<Longrightarrow> jrel_opt h hjo jo \<Longrightarrow>
                   (case e of JSONObject xs \<Rightarrow> wts xs + 2 | _ \<Rightarrow> wt e + 1) < n \<Longrightarrow>
                   refines h (m_as_sql m h a t hjo) (as_sql c e t jo)"
    and pg: "\<And>h a e. repr h a e \<Longrightarrow> wt e + 2 < n \<Longrightarrow>
                   refines h (m_as_postgresql m h a) (as_postgresql c e)"
    and ora: "\<And>h a e. repr h a e \<Longrightarrow> wt e + 2 < n \<Longrightarrow>
                   refines h (m_as_oracle m h a) (as_oracle c e)"
    and self: "repr h a e" and fuel: "wt e + 3 < Suc n"
  shows "refines h (h_compile_body c m h a) (compile c e)"
proof -
  note v = repr_has_vendor_impl [OF self]
  have f2: "wt e + 2 < n" using fuel by simp
  have f1: "(case e of JSONObject xs \<Rightarrow> wts xs + 2 | _ \<Rightarrow> wt e + 1) < n"
  proof (cases e)
    case (JSONObject xs)
    then show ?thesis using fuel wts_le [of xs] by simp
  qed (use fuel in simp_all)
  have j: "jrel_opt h None None" by (simp add: jrel_opt_def)
  consider (pg) "vendor c = PostgreSQL" "has_vendor_impl e"
    | (ora) "vendor c = Oracle" "has_vendor_impl e"
    | (sql) "\<not> (vendor c = PostgreSQL \<and> has_vendor_impl e)"
            "\<not> (vendor c = Oracle \<and> has_vendor_impl e)"
    by blast
  then show ?thesis
  proof cases
    case pg
    then have body: "h_compile_body c m h a = m_as_postgresql m h a"
      and pure: "compile c e = as_postgresql c e"
      using v by (simp_all add: h_compile_body_def compile.simps)
    show ?thesis unfolding body pure by (rule assms(2) [OF self f2])
  next
    case ora
    then have body: "h_compile_body c m h a = m_as_oracle m h a"
      and pure: "compile c e = as_oracle c e"
      using v by (simp_all add: h_compile_body_def compile.simps)
    show ?thesis unfolding body pure by (rule assms(3) [OF self f2])
  next
    case sql
    then have body: "h_compile_body c m h a = m_as_sql m h a None None"
      using v by (auto simp: h_compile_body_def)
    from sql have pure: "compile c e = as_sql c e None None"
      by (auto simp: compile.simps)
    show ?thesis unfolding body pure by (rule assms(1) [OF self j f1])
  qed
qed

lemma methods_refine:
  "(\<forall>h a e. repr h a e \<longrightarrow> wt e + 3 < n \<longrightarrow>
      refines h (m_compile (h_methods n c) h a) (compile c e))
   \<and> (\<forall>h a es fn t hj j. srcs_repr h a es \<longrightarrow> jrel h hj j \<longrightarrow> wts es + 1 < n \<longrightarrow>
      refines h (m_Func_as_sql (h_methods n c) h a fn t hj) (Func_as_sql c es fn t j))
   \<and> (\<forall>h a e t hjo jo. repr h a e \<longrightarrow> jrel_opt h hjo jo \<longrightarrow>
      (case e of JSONObject xs \<Rightarrow> wts xs + 2 | _ \<Rightarrow> wt e + 1) < n \<longrightarrow>
      refines h (m_as_sql (h_methods n c) h a t hjo) (as_sql c e t jo))
   \<and> (\<forall>h a xs r. repr h a (JSONObject xs) \<longrightarrow> wts xs + 3 < n \<longrightarrow>
      refines h (m_as_native (h_methods n c) h a r) (as_native c (JSONObject xs) r))
   \<and> (\<forall>h a e. repr h a e \<longrightarrow> wt e + 2 < n \<longrightarrow>
      refines h (m_as_postgresql (h_methods n c) h a) (as_postgresql c e))
   \<and> (\<forall>h a e. repr h a e \<longrightarrow> wt e + 2 < n \<longrightarrow>
      refines h (m_as_oracle (h_methods n c) h a) (as_oracle c e))"
proof (induction n)
  case 0
  show ?case by simp
next
  case (Suc n)
  let ?m = "h_methods n c"
  note comp = Suc [THEN conjunct1, rule_format]
  note func = Suc [THEN conjunct2, THEN conjunct1, rule_format]
  note sql = Suc [THEN conjunct2, THEN conjunct2, THEN conjunct1, rule_format]
  note native = Suc [THEN conjunct2, THEN conjunct2, THEN conjunct2, THEN conjunct1, rule_format]
  note pg = Suc [THEN conjunct2, THEN conjunct2, THEN conjunct2, THEN conjunct2, THEN conjunct1,
      rule_format]
  note ora = Suc [THEN conjunct2, THEN conjunct2, THEN conjunct2, THEN conjunct2, THEN conjunct2,
      rule_format]
  have 1: "\<forall>h a e. repr h a e \<longrightarrow> wt e + 3 < Suc n \<longrightarrow>
      refines h (m_compile (h_methods (Suc n) c) h a) (compile c e)"
  proof (intro allI impI)
    fix h a e
    assume r: "repr h a e" and f: "wt e + 3 < Suc n"
    have "refines h (h_compile_body c ?m h a) (compile c e)"
      by (rule compile_step [OF _ _ _ r f]) (rule sql pg ora; assumption)+
    then show "refines h (m_compile (h_methods (Suc n) c) h a) (compile c e)"
      by (simp add: Let_def)
  qed
  have 2: "\<forall>h a es fn t hj j. srcs_repr h a es \<longrightarrow> jrel h hj j \<longrightarrow> wts es + 1 < Suc n \<longrightarrow>
      refines h (m_Func_as_sql (h_methods (Suc n) c) h a fn t hj) (Func_as_sql c es fn t j)"
  proof (intro allI impI)
    fix h a es fn t hj j
    assume r: "srcs_repr h a es" and jr: "jrel h hj j" and f: "wts es + 1 < Suc n"
    from f have f': "wts es < n" by simp
    have "refines h (h_Func_as_sql_body ?m h a fn t hj) (Func_as_sql c es fn t j)"
      by (rule Func_as_sql_step [OF _ r jr f']) (rule comp; assumption)
    then show "refines h (m_Func_as_sql (h_methods (Suc n) c) h a fn t hj)
                 (Func_as_sql c es fn t j)"
      by (simp add: Let_def)
  qed
  have 3: "\<forall>h a e t hjo jo. repr h a e \<longrightarrow> jrel_opt h hjo jo \<longrightarrow>
      (case e of JSONObject xs \<Rightarrow> wts xs + 2 | _ \<Rightarrow> wt e + 1) < Suc n \<longrightarrow>
      refines h (m_as_sql (h_methods (Suc n) c) h a t hjo) (as_sql c e t jo)"
  proof (intro allI impI)
    fix h a e t hjo jo
    assume r: "repr h a e" and jr: "jrel_opt h hjo jo"
      and f: "(case e of JSONObject xs \<Rightarrow> wts xs + 2 | _ \<Rightarrow> wt e + 1) < Suc n"
    have "refines h (h_as_sql_body c n ?m h a t hjo) (as_sql c e t jo)"
      by (rule as_sql_step [OF _ r jr f]) (rule func; assumption)
    then show "refines h (m_as_sql (h_methods (Suc n) c) h a t hjo) (as_sql c e t jo)"
      by (simp add: Let_def)
  qed
  have 4: "\<forall>h a xs r. repr h a (JSONObject xs) \<longrightarrow> wts xs + 3 < Suc n \<longrightarrow>
      refines h (m_as_native (h_methods (Suc n) c) h a r) (as_native c (JSONObject xs) r)"
  proof (intro allI impI)
    fix h a xs r
    assume r: "repr h a (JSONObject xs)" and f: "wts xs + 3 < Suc n"
    from f have f': "wts xs + 2 < n" by simp
    have "refines h (h_as_native_body ?m h a r) (as_native c (JSONObject xs) r)"
      by (rule as_native_step [OF _ r f']) (rule sql; assumption)
    then show "refines h (m_as_native (h_methods (Suc n) c) h a r)
                 (as_native c (JSONObject xs) r)"
      by (simp add: Let_def del: as_native.simps)
  qed
  have 5: "\<forall>h a e. repr h a e \<longrightarrow> wt e + 2 < Suc n \<longrightarrow>
      refines h (m_as_postgresql (h_methods (Suc n) c) h a) (as_postgresql c e)"
  proof (intro allI impI)
    fix h a e
    assume r: "repr h a e" and f: "wt e + 2 < Suc n"
    have "refines h (h_as_postgresql_body c n ?m h a) (as_postgresql c e)"
      by (rule as_postgresql_step [OF _ _ _ r f]) (rule func native pg; assumption)+
    then show "refines h (m_as_postgresql (h_methods (Suc n) c) h a) (as_postgresql c e)"
      by (simp add: Let_def)
  qed
  have 6: "\<forall>h a e. repr h a e \<longrightarrow> wt e + 2 < Suc n \<longrightarrow>
      refines h (m_as_oracle (h_methods (Suc n) c) h a) (as_oracle c e)"
  proof (intro allI impI)
    fix h a e
    assume r: "repr h a e" and f: "wt e + 2 < Suc n"
    have "refines h (h_as_oracle_body c n ?m h a) (as_oracle c e)"
      by (rule as_oracle_step [OF _ _ _ r f]) (rule func native ora; assumption)+
    then show "refines h (m_as_oracle (h_methods (Suc n) c) h a) (as_oracle c e)"
      by (simp add: Let_def)
  qed
  from 1 2 3 4 5 6 show ?case by (intro conjI)
qed

lemma prefix_take: "prefix h h' \<Longrightarrow> take (length h) h' = h"
  by (auto simp: prefix_def)

lemma refines_twice:
  assumes m: "\<And>g. repr g a e \<Longrightarrow> refines g (run g) res" and r: "repr h a e"
  shows "\<exists>h1 h2. run h = Some (h1, res) \<and> take (length h) h1 = h \<and> repr h1 a e
           \<and> run h1 = Some (h2, res)"
proof -
  from m [OF r] obtain h1 where 1: "run h = Some (h1, res)" and p: "prefix h h1"
    by (auto simp: refines_def)
  from repr_mono [OF r p] have r1: "repr h1 a e" .
  from m [OF r1] obtain h2 where 2: "run h1 = Some (h2, res)"
    by (auto simp: refines_def)
  from 1 prefix_take [OF p] r1 2 show ?thesis by blast
qed

text \<open>
  Claim C5. Compiling a node through \<open>as_sql\<close>, \<open>as_postgresql\<close>, \<open>as_oracle\<close> or the
  compiler leaves every object that existed before the call as it was: the store after the
  call, cut to the addresses of the store before it, is the store before it. So the node, its
  list of source expressions, its \<open>fields\<close> dict and its \<open>paths\<close> are what they were at
  construction and the node still stands for the same expression with the same children;
  what the methods change are the copies they allocate. The result is that of the
  compilation of the expression, and compiling the node again in the store the first
  compilation left gives the same result.
\<close>

theorem compilation_leaves_node:
  "repr h a e \<Longrightarrow> wt e + 3 < n \<Longrightarrow>
   (\<exists>h1 h2. h_as_sql n c h a None None = Some (h1, as_sql c e None None)
        \<and> take (length h) h1 = h \<and> repr h1 a e
        \<and> h_as_sql n c h1 a None None = Some (h2, as_sql c e None None))
   \<and> (\<exists>h1 h2. h_as_postgresql n c h a = Some (h1, as_postgresql c e)
        \<and> take (length h) h1 = h \<and> repr h1 a e
        \<and> h_as_postgresql n c h1 a = Some (h2, as_postgresql c e))
   \<and> (\<exists>h1 h2. h_as_oracle n c h a = Some (h1, as_oracle c e)
        \<and> take (length h) h1 = h \<and> repr h1 a e
        \<and> h_as_oracle n c h1 a = Some (h2, as_oracle c e))
   \<and> (\<exists>h1 h2. h_compile n c h a = Some (h1, compile c e)
        \<and> take (length h) h1 = h \<and> repr h1 a e
        \<and> h_compile n c h1 a = Some (h2, compile c e))"
proof -
  assume r: "repr h a e" and fuel: "wt e + 3 < n"
  note m = methods_refine [of n c]
  have f1: "(case e of JSONObject xs \<Rightarrow> wts xs + 2 | _ \<Rightarrow> wt e + 1) < n"
  proof (cases e)
    case (JSONObject xs)
    then show ?thesis using fuel wts_le [of xs] by simp
  qed (use fuel in simp_all)
  have f2: "wt e + 2 < n" using fuel by simp
  have j: "jrel_opt g None None" for g by (simp add: jrel_opt_def)
  have sql: "refines g (h_as_sql n c g a None None) (as_sql c e None None)" if "repr g a e" for g
    unfolding h_as_sql_def
    using m [THEN conjunct2, THEN conjunct2, THEN conjunct1, rule_format, OF that j f1] .
  have pg: "refines g (h_as_postgresql n c g a) (as_postgresql c e)" if "repr g a e" for g
    unfolding h_as_postgresql_def
    using m [THEN conjunct2, THEN conjunct2, THEN conjunct2, THEN conjunct2, THEN conjunct1,
        rule_format, OF that f2] .
  have ora: "refines g (h_as_oracle n c g a) (as_oracle c e)" if "repr g a e" for g
    unfolding h_as_oracle_def
    using m [THEN conjunct2, THEN conjunct2, THEN conjunct2, THEN conjunct2, THEN conjunct2,
        rule_format, OF that f2] .
  have comp: "refines g (h_compile n c g a) (compile c e)" if "repr g a e" for g
    unfolding h_compile_def
    using m [THEN conjunct1, rule_format, OF that fuel] .
  from refines_twice [of a e "\<lambda>g. h_as_sql n c g a None None", OF sql r]
    refines_twice [of a e "\<lambda>g. h_as_postgresql n c g a", OF pg r]
    refines_twice [of a e "\<lambda>g. h_as_oracle n c g a", OF ora r]
    refines_twice [of a e "\<lambda>g. h_compile n c g a", OF comp r]
  show ?thesis by (intro conjI)
qed

theorem compilation_leaves_node_witness:
  "\<exists>h1 h2.
     h_as_postgresql 60 \<lparr>vendor = PostgreSQL,
          features = \<lparr>has_json_object_function = True, supports_partial_json_update = True,
                      is_postgresql_16 = True\<rparr>\<rparr>
       [OCol ''data'' JSONField, OList [0], OValue (Lit (PInt 1)) (Some JSONField),
        OValue (Lit (PInt 2)) (Some JSONField), ODict [(''a'', 2), (''b'', 3)],
        OFunc CJSONSet 1 None (Some 4) []] 5
       = Some (h1, Inr (''JSONB_SET(JSONB_SET('' @ [CHR 0x22] @ ''data'' @ [CHR 0x22]
                          @ '', %s, %s), %s, %s)'',
                        [Param (Lit (PList [''a''])) None, Param (Lit (PInt 1)) (Some JSONField),
                         Param (Lit (PList [''b''])) None, Param (Lit (PInt 2)) (Some JSONField)]))
     \<and> take 6 h1
         = [OCol ''data'' JSONField, OList [0], OValue (Lit (PInt 1)) (Some JSONField),
            OValue (Lit (PInt 2)) (Some JSONField), ODict [(''a'', 2), (''b'', 3)],
            OFunc CJSONSet 1 None (Some 4) []]
     \<and> h_as_postgresql 60 \<lparr>vendor = PostgreSQL,
          features = \<lparr>has_json_object_function = True, supports_partial_json_update = True,
                      is_postgresql_16 = True\<rparr>\<rparr> h1 5
       = Some (h2, Inr (''JSONB_SET(JSONB_SET('' @ [CHR 0x22] @ ''data'' @ [CHR 0x22]
                          @ '', %s, %s), %s, %s)'',
                        [Param (Lit (PList [''a''])) None, Param (Lit (PInt 1)) (Some JSONField),
                         Param (Lit (PList [''b''])) None, Param (Lit (PInt 2)) (Some JSONField)]))"
proof -
  let ?c = "\<lparr>vendor = PostgreSQL,
          features = \<lparr>has_json_object_function = True, supports_partial_json_update = True,
                      is_postgresql_16 = True\<rparr>\<rparr>"
  let ?h = "[OCol ''data'' JSONField, OList [0], OValue (Lit (PInt 1)) (Some JSONField),
        OValue (Lit (PInt 2)) (Some JSONField), ODict [(''a'', 2), (''b'', 3)],
        OFunc CJSONSet 1 None (Some 4) []]"
  let ?e = "JSONSet [Col ''data'' JSONField] None
              [(''a'', Value (Lit (PInt 1)) (Some JSONField)),
               (''b'', Value (Lit (PInt 2)) (Some JSONField))]"
  have l0: "lookup ?h 0 = Some (OCol ''data'' JSONField)"
    and l1: "lookup ?h 1 = Some (OList [0])"
    and l2: "lookup ?h 2 = Some (OValue (Lit (PInt 1)) (Some JSONField))"
    and l3: "lookup ?h 3 = Some (OValue (Lit (PInt 2)) (Some JSONField))"
    and l4: "lookup ?h 4 = Some (ODict [(''a'', 2), (''b'', 3)])"
    and l5: "lookup ?h 5 = Some (OFunc CJSONSet 1 None (Some 4) [])"
    by (simp_all add: lookup_def)
  have r: "repr ?h 5 ?e"
    using l5 l1
  proof (rule repr.JSONSet [where kvs = "[(''a'', 2), (''b'', 3)]"])
    show "list_all2 (repr ?h) [0] [Col ''data'' JSONField]"
      using repr.Col [OF l0] by simp
    show "lookup ?h 4 = Some (ODict [(''a'', 2), (''b'', 3)])" by (rule l4)
    show "list_all2 (\<lambda>kv fe. fst kv = fst fe \<and> repr ?h (snd kv) (snd fe))
            [(''a'', 2), (''b'', 3)]
            [(''a'', Value (Lit (PInt 1)) (Some JSONField)),
             (''b'', Value (Lit (PInt 2)) (Some JSONField))]"
      using repr.Value [OF l2] repr.Value [OF l3] by simp
  qed
  have f: "wt ?e + 3 < 60" by simp
  have sp: "split ''a'' LOOKUP_SEP = [''a'']" "split ''b'' LOOKUP_SEP = [''b'']"
    by (simp_all add: split_def LOOKUP_SEP_def)
  have res: "as_postgresql ?c ?e
      = Inr (''JSONB_SET(JSONB_SET('' @ [CHR 0x22] @ ''data'' @ [CHR 0x22]
                          @ '', %s, %s), %s, %s)'',
             [Param (Lit (PList [''a''])) None, Param (Lit (PInt 1)) (Some JSONField),
              Param (Lit (PList [''b''])) None, Param (Lit (PInt 2)) (Some JSONField)])"
    by code_simp
  from compilation_leaves_node [OF r f, of ?c, THEN conjunct2, THEN conjunct1]
  obtain h1 h2 where a: "h_as_postgresql 60 ?c ?h 5 = Some (h1, as_postgresql ?c ?e)"
    and b: "take (length ?h) h1 = ?h"
    and c: "h_as_postgresql 60 ?c h1 5 = Some (h2, as_postgresql ?c ?e)"
    by blast
  have "length ?h = 6" by simp
  with b have b': "take 6 h1 = ?h" by (simp only:)
  note a' = a [unfolded res] and c' = c [unfolded res]
  show ?thesis by (rule exI, rule exI, rule conjI [OF a' conjI [OF b' c']])
qed

end
